theory Spec2Isabelle
  imports Main "HOL-Library.Word"
begin

section \<open>The reader pipeline (encoder/tcpReader.go)\<close>

text \<open>
  Byte slices are modelled as \<open>string\<close> (a list of 8-bit characters), time stamps as
  integers (\<open>Before\<close> is \<open><\<close>). A \<open>gopacket.Flow\<close> is the pair of its printed
  endpoints. Record fields keep the names of the Go struct fields; where two structs
  share a field name the field carries a short prefix of its struct.
\<close>

type_synonym bytes = string

record Flow =
  Src :: string
  Dst :: string

type_synonym Credentials = string

text \<open>
  The collaborators outside the repository (the Go standard library, the service
  registry, the ANSI colour codes, the harvesters, the configuration and the outcome of
  file operations) are parameters of the model, collected in one record.
  \<open>OpenFile_ok\<close> says whether opening a path succeeds; \<open>Copy_err\<close> is \<open>None\<close>
  when \<open>io.Copy\<close> writes everything and \<open>Some w\<close> when it fails after \<open>w\<close> bytes;
  \<open>Close_ok\<close> says whether closing succeeds.
\<close>

record env =
  Atoi :: "string \<Rightarrow> int"
  LookupServiceByPort :: "int \<Rightarrow> string \<Rightarrow> string"
  ValidString :: "bytes \<Rightarrow> bool"
  filepath_Join :: "string list \<Rightarrow> string"
  filepath_Clean :: "string \<Rightarrow> string"
  path_Base :: "string \<Rightarrow> string"
  path_Join :: "string list \<Rightarrow> string"
  ansi_Red :: string
  ansi_Blue :: string
  ansi_Reset :: string
  c_Out :: string
  tcpConnectionHarvesters :: "(bytes \<Rightarrow> string \<Rightarrow> int \<Rightarrow> Credentials option) list"
  OpenFile_ok :: "string \<Rightarrow> bool"
  Copy_err :: "string \<Rightarrow> bytes \<Rightarrow> nat option"
  Close_ok :: "string \<Rightarrow> bool"

datatype log_entry =
    LogSaveConnection string
  | LogCannotCreate string
  | LogFailedToSave string nat
  | LogSaved string nat
  | LogFailedToClose string nat
  | PrintFailedToSaveStream

text \<open>
  Everything \<open>saveConnection\<close> can touch: the files (path to contents), the directories
  \<open>os.MkdirAll\<close> was asked for, the credentials records written, the number of harvester
  invocations, the \<open>savedConnections\<close> statistics counter and the log.
\<close>

record world =
  files :: "string \<rightharpoonup> bytes"
  dirs :: "string list"
  credentials :: "Credentials list"
  harvesterRuns :: nat
  savedConnections :: int
  logs :: "log_entry list"

record tcpConnection =
  c_ident :: string
  c_firstPacket :: int
  c_net :: Flow
  c_transport :: Flow
  conversationRaw :: bytes
  conversationColored :: bytes
  c_last :: bool

text \<open>The channel \<open>bytes\<close> of a reader: the chunks sent and not yet received, and
  whether the sender has closed it.\<close>

record byteChan =
  chunks :: "bytes list"
  chan_closed :: bool

record tcpReader =
  isClient :: bool
  r_bytes :: byteChan
  r_data :: bytes
  clientData :: bytes
  serverData :: bytes
  r_saved :: bool

record tcpConnectionFactory =
  wg :: int
  numActive :: int

datatype panic = NegativeWaitGroupCounter

datatype 'a recv = Blocked | Received 'a

subsection \<open>Read\<close>

text \<open>
  The receive loop of \<open>Read\<close>: \<open>for ok && len(h.data) == 0 { h.data, ok = <-h.bytes }\<close>.
  A receive on a closed, drained channel yields \<open>(nil, false)\<close>; on an open, empty
  channel it blocks.
\<close>

fun recv_loop :: "bytes list \<Rightarrow> bool \<Rightarrow> (bytes \<times> bool \<times> bytes list) recv" where
  "recv_loop [] cl = (if cl then Received ([], False, []) else Blocked)"
| "recv_loop (c # cs) cl = (if length c = 0 then recv_loop cs cl else Received (c, True, cs))"

definition Read :: "env \<Rightarrow> tcpReader \<Rightarrow> tcpConnection \<Rightarrow> nat \<Rightarrow>
    ((nat \<times> bool) \<times> bytes \<times> tcpReader \<times> tcpConnection) recv" where
  "Read e h parent n =
     (case (if length (r_data h) = 0
            then recv_loop (chunks (r_bytes h)) (chan_closed (r_bytes h))
            else Received (r_data h, True, chunks (r_bytes h))) of
        Blocked \<Rightarrow> Blocked
      | Received (d, ok, rest) \<Rightarrow>
          (let h1 = h\<lparr>r_data := d, r_bytes := (r_bytes h)\<lparr>chunks := rest\<rparr>\<rparr> in
           if \<not> ok \<or> length d = 0 then Received ((0, True), [], h1, parent)
           else
             let l = min n (length d);
                 dataCpy = take l d;
                 h2 = h1\<lparr>r_data := drop l d\<rparr>;
                 parent1 = parent\<lparr>conversationRaw := conversationRaw parent @ dataCpy\<rparr>;
                 parent2 =
                   (if isClient h2
                    then parent1\<lparr>conversationColored :=
                           conversationColored parent1 @ ansi_Red e @ dataCpy @ ansi_Reset e\<rparr>
                    else parent1\<lparr>conversationColored :=
                           conversationColored parent1 @ ansi_Blue e @ dataCpy @ ansi_Reset e\<rparr>);
                 h3 = (if isClient h2 then h2\<lparr>clientData := clientData h2 @ dataCpy\<rparr>
                       else h2\<lparr>serverData := serverData h2 @ dataCpy\<rparr>)
             in Received ((l, False), dataCpy, h3, parent2)))"

subsection \<open>getServiceName and saveConnection\<close>

definition getServiceName :: "env \<Rightarrow> bytes \<Rightarrow> Flow \<Rightarrow> string" where
  "getServiceName e data destination =
     (let dstPort = Atoi e (Dst destination);
          s = LookupServiceByPort e dstPort ''tcp''
      in if s \<noteq> [] then s
         else if ValidString e data then ''utf8''
         else ''unknown'')"

text \<open>The harvester loop: each harvester is run in turn; the first that returns
  credentials has them written, and the loop stops.\<close>

fun run_harvesters :: "(bytes \<Rightarrow> string \<Rightarrow> int \<Rightarrow> Credentials option) list \<Rightarrow>
    bytes \<Rightarrow> string \<Rightarrow> int \<Rightarrow> world \<Rightarrow> world" where
  "run_harvesters [] raw ident fp w = w"
| "run_harvesters (ch # chs) raw ident fp w =
     (let w1 = w\<lparr>harvesterRuns := harvesterRuns w + 1\<rparr> in
      case ch raw ident fp of
        Some c \<Rightarrow> w1\<lparr>credentials := credentials w1 @ [c]\<rparr>
      | None \<Rightarrow> run_harvesters chs raw ident fp w1)"

datatype save_error = OpenError string

text \<open>Appending to a file opened with \<open>O_CREATE|O_APPEND\<close>: a missing file starts empty.\<close>

definition append_file :: "(string \<rightharpoonup> bytes) \<Rightarrow> string \<Rightarrow> bytes \<Rightarrow> (string \<rightharpoonup> bytes)" where
  "append_file fs p d = fs(p \<mapsto> (case fs p of None \<Rightarrow> [] | Some old \<Rightarrow> old) @ d)"

definition saveConnection :: "env \<Rightarrow> world \<Rightarrow> bytes \<Rightarrow> bytes \<Rightarrow> string \<Rightarrow> int \<Rightarrow> Flow \<Rightarrow>
    save_error option \<times> world" where
  "saveConnection e w raw colored ident firstPacket transport =
     (if length raw = 0 then (None, w)
      else
        let w1 = run_harvesters (tcpConnectionHarvesters e) raw ident firstPacket w;
            typ = getServiceName e raw transport;
            root = filepath_Join e [c_Out e, ''tcpConnections'', typ];
            base0 = filepath_Clean e (path_Base e ident) @ ''.bin'';
            w2 = w1\<lparr>dirs := dirs w1 @ [root]\<rparr>;
            base = path_Join e [root, base0];
            w3 = w2\<lparr>logs := logs w2 @ [LogSaveConnection base]\<rparr>;
            w4 = w3\<lparr>savedConnections := savedConnections w3 + 1\<rparr>
        in if \<not> OpenFile_ok e base
           then (Some (OpenError base), w4\<lparr>logs := logs w4 @ [LogCannotCreate base]\<rparr>)
           else
             let w5 = w4\<lparr>files := append_file (files w4) base []\<rparr>;
                 w6 = (case Copy_err e base colored of
                         Some n \<Rightarrow> w5\<lparr>files := append_file (files w5) base (take n colored),
                                      logs := logs w5 @ [LogFailedToSave base (min n (length colored))]\<rparr>
                       | None \<Rightarrow> w5\<lparr>files := append_file (files w5) base colored,
                                    logs := logs w5 @ [LogSaved base (length colored)]\<rparr>);
                 wr = (case Copy_err e base colored of
                         Some n \<Rightarrow> min n (length colored) | None \<Rightarrow> length colored);
                 w7 = (if Close_ok e base then w6
                       else w6\<lparr>logs := logs w6 @ [LogFailedToClose base wr]\<rparr>)
             in (None, w7))"

subsection \<open>Cleanup\<close>

text \<open>\<open>sync.WaitGroup.Done\<close> decrements the counter and panics when it becomes negative.\<close>

definition wg_Done :: "tcpConnectionFactory \<Rightarrow> panic + tcpConnectionFactory" where
  "wg_Done f = (if wg f - 1 < 0 then Inl NegativeWaitGroupCounter else Inr (f\<lparr>wg := wg f - 1\<rparr>))"

definition Cleanup :: "env \<Rightarrow> tcpConnectionFactory \<Rightarrow> tcpReader \<Rightarrow> tcpConnection \<Rightarrow> world \<Rightarrow>
    panic + (tcpConnectionFactory \<times> tcpReader \<times> tcpConnection \<times> world)" where
  "Cleanup e f h parent w =
     (let (h1, w1) =
            (if isClient h
             then (case saveConnection e w (conversationRaw parent) (conversationColored parent)
                          (c_ident parent) (c_firstPacket parent) (c_transport parent) of
                     (Some err, w') \<Rightarrow> (h\<lparr>r_saved := True\<rparr>, w'\<lparr>logs := logs w' @ [PrintFailedToSaveStream]\<rparr>)
                   | (None, w') \<Rightarrow> (h\<lparr>r_saved := True\<rparr>, w'))
             else (h, w))
      in if \<not> c_last parent
         then (case wg_Done f of
                 Inl p \<Rightarrow> Inl p
               | Inr f1 \<Rightarrow> Inr (f1\<lparr>numActive := numActive f1 - 1\<rparr>, h1, parent\<lparr>c_last := True\<rparr>, w1))
         else (case wg_Done f of
                 Inl p \<Rightarrow> Inl p
               | Inr f1 \<Rightarrow> Inr (f1\<lparr>numActive := numActive f1 - 1\<rparr>, h1, parent, w1)))"

subsection \<open>The path of a saved connection\<close>

definition connection_path :: "env \<Rightarrow> bytes \<Rightarrow> string \<Rightarrow> Flow \<Rightarrow> string" where
  "connection_path e raw ident transport =
     path_Join e [filepath_Join e [c_Out e, ''tcpConnections'', getServiceName e raw transport],
                  filepath_Clean e (path_Base e ident) @ ''.bin'']"

subsection \<open>A concrete environment for evaluation\<close>

text \<open>
  A small instance of the collaborators, used to run the model on concrete inputs: a
  decimal \<open>Atoi\<close>, a registry that knows port 80, an ASCII check as the UTF-8 test,
  slash-joined paths, visible colour markers and file operations that succeed.
\<close>

definition atoi_example :: "string \<Rightarrow> int" where
  "atoi_example s =
     (if s \<noteq> [] \<and> list_all (\<lambda>c. 48 \<le> (of_char c :: nat) \<and> (of_char c :: nat) \<le> 57) s
      then foldl (\<lambda>a c. 10 * a + (int (of_char c) - 48)) 0 s else 0)"

fun join_example :: "string list \<Rightarrow> string" where
  "join_example [] = []"
| "join_example [x] = x"
| "join_example (x # y # ys) = x @ ''/'' @ join_example (y # ys)"

definition example_env :: env where
  "example_env = \<lparr>
     Atoi = atoi_example,
     LookupServiceByPort = (\<lambda>p proto. if p = 80 \<and> proto = ''tcp'' then ''http'' else []),
     ValidString = list_all (\<lambda>c. (of_char c :: nat) < 128),
     filepath_Join = join_example,
     filepath_Clean = (\<lambda>s. s),
     path_Base = (\<lambda>s. s),
     path_Join = join_example,
     ansi_Red = ''<r>'',
     ansi_Blue = ''<b>'',
     ansi_Reset = ''<0>'',
     c_Out = ''out'',
     tcpConnectionHarvesters = [],
     OpenFile_ok = (\<lambda>p. True),
     Copy_err = (\<lambda>p d. None),
     Close_ok = (\<lambda>p. True)\<rparr>"

definition empty_world :: world where
  "empty_world = \<lparr>files = Map.empty, dirs = [], credentials = [], harvesterRuns = 0,
     savedConnections = 0, logs = []\<rparr>"

definition example_parent :: tcpConnection where
  "example_parent = \<lparr>c_ident = ''a-b'', c_firstPacket = 0,
     c_net = \<lparr>Src = ''10.0.0.1'', Dst = ''10.0.0.2''\<rparr>,
     c_transport = \<lparr>Src = ''4242'', Dst = ''80''\<rparr>,
     conversationRaw = [], conversationColored = [], c_last = False\<rparr>"

definition example_reader :: tcpReader where
  "example_reader = \<lparr>isClient = True, r_bytes = \<lparr>chunks = [''A''], chan_closed = True\<rparr>,
     r_data = [], clientData = [], serverData = [], r_saved = False\<rparr>"

section \<open>The reassembler (package reassembly)\<close>

subsection \<open>Sequence numbers\<close>

text \<open>
  \<open>Sequence\<close> is a Go \<open>int64\<close>; \<open>invalidSequence\<close> is the sentinel outside the
  32-bit range that the code compares with.
\<close>

type_synonym Sequence = int

definition invalidSequence :: Sequence where
  "invalidSequence = -1"

text \<open>
  Modelled from the spec: the methods \<open>Add\<close> and \<open>Difference\<close> of \<open>Sequence\<close> are
  declared in a file of the package that is not among the sources. The specification
  gives them as 32-bit modular addition and as the difference \<open>other - self\<close> read as a
  signed 32-bit number.
\<close>

definition Add :: "Sequence \<Rightarrow> int \<Rightarrow> Sequence" where
  "Add s t = (s + t) mod 4294967296"

definition Difference :: "Sequence \<Rightarrow> Sequence \<Rightarrow> int" where
  "Difference s t =
     (let d = (t - s) mod 4294967296 in if 2147483648 \<le> d then d - 4294967296 else d)"

subsection \<open>Pages, the page cache and live packets\<close>

text \<open>
  A page of the queue. The links \<open>prev\<close> and \<open>next\<close> are the order of the list that
  holds the page; \<open>p_isPacket\<close> is \<open>ac != nil\<close>, true of the first page of a packet.
\<close>

record page =
  p_bytes :: bytes
  p_seq :: Sequence
  p_seen :: int
  p_start :: bool
  p_end :: bool
  p_isPacket :: bool

text \<open>
  Modelled from the spec: the page cache is declared outside the sources. The
  specification gives it a \<open>used\<close> and a \<open>size\<close> counter, \<open>acquire\<close> and \<open>replace\<close>,
  growth on demand and pages of one fixed size; that size is the parameter
  \<open>pageBytes\<close>.
\<close>

record pageCache =
  used :: int
  pc_size :: int
  pageBytes :: nat

definition pc_replace :: "pageCache \<Rightarrow> pageCache" where
  "pc_replace c = c\<lparr>used := used c - 1\<rparr>"

record livePacket =
  lp_bytes :: bytes
  lp_seq :: Sequence
  lp_start :: bool
  lp_end :: bool
  lp_ci :: int

text \<open>The elements of \<open>a.ret\<close> and of \<open>sg.all\<close>: a page taken from a list of the half
  connection, or the packet being assembled.\<close>

datatype byteContainer = Page page | Live livePacket

fun getSeq :: "byteContainer \<Rightarrow> Sequence" where
  "getSeq (Page p) = p_seq p"
| "getSeq (Live l) = lp_seq l"

fun getBytes :: "byteContainer \<Rightarrow> bytes" where
  "getBytes (Page p) = p_bytes p"
| "getBytes (Live l) = lp_bytes l"

definition c_length :: "byteContainer \<Rightarrow> int" where
  "c_length r = int (length (getBytes r))"

fun isEnd :: "byteContainer \<Rightarrow> bool" where
  "isEnd (Page p) = p_end p"
| "isEnd (Live l) = lp_end l"

fun isStart :: "byteContainer \<Rightarrow> bool" where
  "isStart (Page p) = p_start p"
| "isStart (Live l) = lp_start l"

text \<open>
  Modelled from the spec: \<open>release\<close> and \<open>convertToPages\<close> are methods declared outside
  the sources. Releasing a page returns it to the cache and counts one page; a live
  packet holds no page. Converting a live packet copies its bytes from offset \<open>skip\<close>
  into a chain of fresh pages of at most \<open>pageBytes\<close> bytes each (one page when no byte
  is left), the first marked as the packet's origin and the last carrying the end flag;
  converting a page drops its first \<open>skip\<close> bytes in place. A Go slice expression with
  an offset outside the slice panics: the result is then \<open>None\<close>.
\<close>

fun release :: "pageCache \<Rightarrow> byteContainer \<Rightarrow> pageCache \<times> int" where
  "release c (Page p) = (pc_replace c, 1)"
| "release c (Live l) = (c, 0)"

function split_bytes :: "nat \<Rightarrow> bytes \<Rightarrow> bytes list" where
  "split_bytes n bs =
     (if n = 0 \<or> length bs \<le> n then [bs] else take n bs # split_bytes n (drop n bs))"
  by pat_completeness auto
termination
  by (relation "measure (\<lambda>(n, bs). length bs)") auto

declare split_bytes.simps [simp del]

fun mk_pages :: "int \<Rightarrow> bool \<Rightarrow> bool \<Rightarrow> bool \<Rightarrow> Sequence \<Rightarrow> bytes list \<Rightarrow> page list" where
  "mk_pages ts st en origin s [] = []"
| "mk_pages ts st en origin s (c # cs) =
     \<lparr>p_bytes = c, p_seq = s, p_seen = ts, p_start = st, p_end = (cs = [] \<and> en),
      p_isPacket = origin\<rparr> # mk_pages ts False en False (Add s (int (length c))) cs"

text \<open>Go's \<open>b[k:]\<close> and \<open>b[:k]\<close>. The second is allowed by Go up to the capacity of
  \<open>b\<close>; the model asks for \<open>k\<close> within the length.\<close>

definition slice_from :: "bytes \<Rightarrow> int \<Rightarrow> bytes option" where
  "slice_from b k = (if 0 \<le> k \<and> k \<le> int (length b) then Some (drop (nat k) b) else None)"

definition slice_to :: "bytes \<Rightarrow> int \<Rightarrow> bytes option" where
  "slice_to b k = (if 0 \<le> k \<and> k \<le> int (length b) then Some (take (nat k) b) else None)"

definition lp_convertToPages :: "pageCache \<Rightarrow> livePacket \<Rightarrow> int \<Rightarrow> (pageCache \<times> page list) option" where
  "lp_convertToPages c l skip =
     (case slice_from (lp_bytes l) skip of
        None \<Rightarrow> None
      | Some bs \<Rightarrow>
          (let ps = mk_pages (lp_ci l) (lp_start l) (lp_end l) True (Add (lp_seq l) skip)
                      (split_bytes (pageBytes c) bs)
           in Some (c\<lparr>used := used c + int (length ps),
                       pc_size := max (pc_size c) (used c + int (length ps))\<rparr>, ps)))"

definition page_convertToPages :: "page \<Rightarrow> int \<Rightarrow> page option" where
  "page_convertToPages p skip =
     (if skip \<noteq> 0
      then (case slice_from (p_bytes p) skip of
              None \<Rightarrow> None
            | Some bs \<Rightarrow> Some (p\<lparr>p_bytes := bs, p_seq := Add (p_seq p) skip\<rparr>))
      else Some p)"

fun convertToPages :: "pageCache \<Rightarrow> byteContainer \<Rightarrow> int \<Rightarrow> (pageCache \<times> page list) option" where
  "convertToPages c (Page p) skip = map_option (\<lambda>q. (c, [q])) (page_convertToPages p skip)"
| "convertToPages c (Live l) skip = lp_convertToPages c l skip"

subsection \<open>Half connections, connections, the stream and the assembler\<close>

datatype TCPFlowDirection = TCPDirClientToServer | TCPDirServerToClient

text \<open>The queue \<open>first \<dots> last\<close> of a half connection is the list \<open>h_queue\<close>, head
  first; the list \<open>saved\<close> is \<open>h_saved\<close>.\<close>

record halfconnection =
  h_dir :: TCPFlowDirection
  h_pages :: int
  h_saved :: "page list"
  h_queue :: "page list"
  h_nextSeq :: Sequence
  h_ackSeq :: Sequence
  h_lastSeen :: int
  h_closed :: bool
  queuedPackets :: int
  queuedBytes :: int
  overlapPackets :: int
  overlapBytes :: int

record reassemblyObject =
  sg_all :: "byteContainer list"
  Skip :: int
  Direction :: TCPFlowDirection
  sg_saved :: int
  toKeep :: int
  sg_queuedBytes :: int
  sg_queuedPackets :: int
  sg_overlapBytes :: int
  sg_overlapPackets :: int

record TCP =
  Seq :: "32 word"
  Ack :: "32 word"
  SYN :: bool
  ACK :: bool
  FIN :: bool
  RST :: bool
  Payload :: bytes

text \<open>
  The stream is the consumer behind the interface \<open>Stream\<close>. Its state is what it has
  been called with so far, so the model keeps the list of calls and gives the consumer's
  answers as functions of it: whether \<open>Accept\<close> accepts and what it leaves in
  \<open>*start\<close>, the value \<open>ReassembledSG\<close> leaves in \<open>toKeep\<close> (\<open>-1\<close> unless it calls
  \<open>KeepFrom\<close>), and the result of \<open>ReassemblyComplete\<close>.
\<close>

datatype call =
    CallAccept TCP int TCPFlowDirection Sequence bool
  | CallReassembledSG reassemblyObject
  | CallReassemblyComplete

record Stream =
  Accept :: "call list \<Rightarrow> TCP \<Rightarrow> int \<Rightarrow> TCPFlowDirection \<Rightarrow> Sequence \<Rightarrow> bool \<Rightarrow> bool \<times> bool"
  KeepFrom :: "call list \<Rightarrow> reassemblyObject \<Rightarrow> int"
  ReassemblyComplete :: "call list \<Rightarrow> bool"

type_synonym key = "Flow \<times> Flow"

record connection =
  conn_key :: key
  c2s :: halfconnection
  s2c :: halfconnection
  stream :: Stream
  calls :: "call list"

definition getHalf :: "connection \<Rightarrow> TCPFlowDirection \<Rightarrow> halfconnection" where
  "getHalf conn d = (case d of TCPDirClientToServer \<Rightarrow> c2s conn | TCPDirServerToClient \<Rightarrow> s2c conn)"

definition rev_dir :: "TCPFlowDirection \<Rightarrow> TCPFlowDirection" where
  "rev_dir d = (case d of TCPDirClientToServer \<Rightarrow> TCPDirServerToClient
                | TCPDirServerToClient \<Rightarrow> TCPDirClientToServer)"

definition setHalf :: "connection \<Rightarrow> TCPFlowDirection \<Rightarrow> halfconnection \<Rightarrow> connection" where
  "setHalf conn d h =
     (case d of TCPDirClientToServer \<Rightarrow> conn\<lparr>c2s := h\<rparr> | TCPDirServerToClient \<Rightarrow> conn\<lparr>s2c := h\<rparr>)"

text \<open>The assembler. \<open>connPool\<close> lists the keys the pool holds; the connections
  themselves are passed to the functions that work on them.\<close>

record Assembler =
  MaxBufferedPagesTotal :: int
  MaxBufferedPagesPerConnection :: int
  ret :: "byteContainer list"
  pc :: pageCache
  connPool :: "key list"
  cacheLP :: livePacket
  cacheSG :: reassemblyObject
  a_start :: bool

definition pool_remove :: "key list \<Rightarrow> key \<Rightarrow> key list" where
  "pool_remove ks k = filter (\<lambda>x. x \<noteq> k) ks"


subsection \<open>checkOverlap\<close>

text \<open>
  \<open>copy(cur.bytes[k : k + len(bytes)], bytes)\<close>: the bytes of \<open>cur\<close> from offset \<open>k\<close>
  are overwritten; a range outside the slice panics.
\<close>

definition copy_into :: "bytes \<Rightarrow> int \<Rightarrow> bytes \<Rightarrow> bytes option" where
  "copy_into cb k bs =
     (if 0 \<le> k \<and> k + int (length bs) \<le> int (length cb)
      then Some (take (nat k) cb @ bs @ drop (nat k + length bs) cb)
      else None)"

text \<open>
  The loop of \<open>checkOverlap\<close> walks the queue from \<open>half.last\<close> towards \<open>half.first\<close>.
  \<open>checkOverlap_step\<close> is one round of it, for the page \<open>cur\<close>: it either leaves the
  loop (\<open>Break\<close>, with \<open>cur\<close> as the round leaves it) or goes on to \<open>cur.prev\<close>
  (\<open>Continue\<close>, with what is left of \<open>cur\<close> in the queue: nothing when the page was
  dropped, else the page as the round leaves it, and with the new bytes, the counters
  of the half connection and the page cache).
\<close>

datatype loop_step = Break page | Continue "page list" bytes halfconnection pageCache

definition checkOverlap_step :: "Sequence \<Rightarrow> Sequence \<Rightarrow> page \<Rightarrow> bytes \<Rightarrow> halfconnection \<Rightarrow>
    pageCache \<Rightarrow> loop_step option" where
  "checkOverlap_step start endSeq cur bytes half c =
     (if Difference endSeq (p_seq cur) > 0
      then Some (Continue [cur] bytes half c)
      else
        let curEnd = Add (p_seq cur) (int (length (p_bytes cur))) in
        if Difference start curEnd \<le> 0
        then Some (Break cur)
        else
          let diffStart = Difference start (p_seq cur);
              diffEnd = Difference endSeq curEnd in
          if diffEnd \<le> 0 \<and> diffStart \<ge> 0
          then Some (Continue [] bytes
                 (half\<lparr>overlapPackets :=
                         (if p_isPacket cur then overlapPackets half + 1 else overlapPackets half),
                       overlapBytes := overlapBytes half + int (length (p_bytes cur)),
                       h_pages := h_pages half - 1\<rparr>)
                 (pc_replace c))
          else if diffEnd < 0 \<and> Difference start curEnd > 0
          then (case slice_to (p_bytes cur) (- Difference start (p_seq cur)) of
                  None \<Rightarrow> None
                | Some b \<Rightarrow> Some (Break (cur\<lparr>p_bytes := b\<rparr>)))
          else if diffStart > 0 \<and> Difference endSeq (p_seq cur) < 0
          then (case slice_from (p_bytes cur) (- Difference endSeq (p_seq cur)) of
                  None \<Rightarrow> None
                | Some b \<Rightarrow>
                    Some (Continue
                      [cur\<lparr>p_bytes := b,
                            p_seq := Add (p_seq cur) (- Difference endSeq (p_seq cur))\<rparr>]
                      bytes half c))
          else if diffEnd > 0 \<and> diffStart < 0
          then (case copy_into (p_bytes cur) (- diffStart) bytes of
                  None \<Rightarrow> None
                | Some b \<Rightarrow> Some (Continue [cur\<lparr>p_bytes := b\<rparr>] [] half c))
          else Some (Continue [cur] bytes half c))"

text \<open>
  The loop itself. The first list holds \<open>cur\<close> and the pages before it, \<open>cur\<close> first;
  the second holds the pages after \<open>cur\<close> in queue order, so its head is what \<open>next\<close>
  points to. (In case 6 the code leaves \<open>next\<close> behind; it then empties \<open>bytes\<close>, and
  \<open>next\<close> is read only when bytes are left to queue.) The result is the two lists where
  the loop stops, the bytes left, the half connection's counters and the page cache.
\<close>

fun checkOverlap_loop :: "Sequence \<Rightarrow> Sequence \<Rightarrow> page list \<Rightarrow> page list \<Rightarrow> bytes \<Rightarrow>
    halfconnection \<Rightarrow> pageCache \<Rightarrow>
    (page list \<times> page list \<times> bytes \<times> halfconnection \<times> pageCache) option" where
  "checkOverlap_loop start endSeq [] right bytes half c = Some ([], right, bytes, half, c)"
| "checkOverlap_loop start endSeq (cur # left) right bytes half c =
     (case checkOverlap_step start endSeq cur bytes half c of
        None \<Rightarrow> None
      | Some (Break cur1) \<Rightarrow> Some (cur1 # left, right, bytes, half, c)
      | Some (Continue keep bytes1 half1 c1) \<Rightarrow>
          checkOverlap_loop start endSeq left (keep @ right) bytes1 half1 c1)"

definition checkOverlap :: "Assembler \<Rightarrow> halfconnection \<Rightarrow> bool \<Rightarrow>
    (Assembler \<times> halfconnection) option" where
  "checkOverlap a half queue =
     (let bytes = lp_bytes (cacheLP a);
          start = lp_seq (cacheLP a);
          endSeq = Add start (int (length bytes))
      in case checkOverlap_loop start endSeq (rev (h_queue half)) [] bytes half (pc a) of
           None \<Rightarrow> None
         | Some (left, right, bytes1, half1, c1) \<Rightarrow>
             (let a1 = a\<lparr>pc := c1, cacheLP := (cacheLP a)\<lparr>lp_bytes := bytes1, lp_seq := start\<rparr>\<rparr>
              in if length bytes1 > 0 \<and> queue
                 then (case lp_convertToPages (pc a1) (cacheLP a1) 0 of
                         None \<Rightarrow> None
                       | Some (c2, ps) \<Rightarrow>
                           Some (a1\<lparr>pc := c2\<rparr>,
                                 half1\<lparr>queuedPackets := queuedPackets half1 + 1,
                                       queuedBytes := queuedBytes half1 + int (length bytes1),
                                       h_pages := h_pages half1 + int (length ps),
                                       h_queue := rev left @ ps @ right\<rparr>))
                 else Some (a1, half1\<lparr>h_queue := rev left @ right\<rparr>)))"

subsection \<open>overlapExisting, handleBytes and the queue helpers\<close>

definition overlapExisting :: "halfconnection \<Rightarrow> Sequence \<Rightarrow> Sequence \<Rightarrow> bytes \<Rightarrow>
    (halfconnection \<times> bytes \<times> Sequence) option" where
  "overlapExisting half start endSeq bytes =
     (if h_nextSeq half = invalidSequence then Some (half, bytes, start)
      else
        let diff = Difference start (h_nextSeq half) in
        if diff = 0 then Some (half, bytes, start)
        else
          let e = int (length bytes);
              half1 = (if e \<noteq> 0
                       then half\<lparr>overlapPackets := overlapPackets half + 1,
                                 overlapBytes := overlapBytes half + diff\<rparr>
                       else half);
              s = (if diff \<ge> e then e else diff)
          in case slice_from bytes s of
               None \<Rightarrow> None
             | Some b \<Rightarrow> Some (half1, b, h_nextSeq half))"

definition addNextFromConn :: "Assembler \<Rightarrow> halfconnection \<Rightarrow> Assembler \<times> halfconnection" where
  "addNextFromConn a conn =
     (case h_queue conn of
        [] \<Rightarrow> (a, conn)
      | p # ps \<Rightarrow> (a\<lparr>ret := ret a @ [Page p]\<rparr>, conn\<lparr>h_queue := ps\<rparr>))"

definition handleBytes :: "Assembler \<Rightarrow> halfconnection \<Rightarrow> bytes \<Rightarrow> Sequence \<Rightarrow> int \<Rightarrow> bool \<Rightarrow> bool \<Rightarrow>
    bool \<Rightarrow> (Assembler \<times> halfconnection \<times> bool) option" where
  "handleBytes a half bytes seq ci start endFlag queue =
     (let a0 = a\<lparr>cacheLP := \<lparr>lp_bytes = bytes, lp_seq = seq, lp_start = start, lp_end = endFlag,
                               lp_ci = ci\<rparr>\<rparr>
      in if queue
         then (case checkOverlap a0 half True of
                 None \<Rightarrow> None
               | Some (a1, half1) \<Rightarrow>
                   if (MaxBufferedPagesPerConnection a1 > 0 \<and>
                       h_pages half1 \<ge> MaxBufferedPagesPerConnection a1) \<or>
                      (MaxBufferedPagesTotal a1 > 0 \<and> used (pc a1) \<ge> MaxBufferedPagesTotal a1)
                   then (let (a2, half2) = addNextFromConn a1 half1 in Some (a2, half2, False))
                   else Some (a1, half1, True))
         else (case overlapExisting half seq (Add seq (int (length bytes))) (lp_bytes (cacheLP a0)) of
                 None \<Rightarrow> None
               | Some (half1, b, s) \<Rightarrow>
                   (case checkOverlap (a0\<lparr>cacheLP := (cacheLP a0)\<lparr>lp_bytes := b, lp_seq := s\<rparr>\<rparr>)
                           half1 False of
                      None \<Rightarrow> None
                    | Some (a2, half2) \<Rightarrow>
                        if length (lp_bytes (cacheLP a2)) \<noteq> 0 \<or> endFlag \<or> start
                        then Some (a2\<lparr>ret := ret a2 @ [Live (cacheLP a2)]\<rparr>, half2, False)
                        else Some (a2, half2, False))))"

definition setStatsToSG :: "Assembler \<Rightarrow> halfconnection \<Rightarrow> Assembler \<times> halfconnection" where
  "setStatsToSG a half =
     (a\<lparr>cacheSG := (cacheSG a)\<lparr>sg_queuedBytes := queuedBytes half,
                                sg_queuedPackets := queuedPackets half,
                                sg_overlapBytes := overlapBytes half,
                                sg_overlapPackets := overlapPackets half\<rparr>\<rparr>,
      half\<lparr>queuedBytes := 0, queuedPackets := 0, overlapBytes := 0, overlapPackets := 0\<rparr>)"

text \<open>\<open>addPending\<close> puts the saved pages in front of \<open>a.ret\<close> when they end where the
  first new byte starts; otherwise it releases them to the cache.\<close>

definition addPending :: "Assembler \<Rightarrow> halfconnection \<Rightarrow> Sequence \<Rightarrow>
    Assembler \<times> halfconnection \<times> int" where
  "addPending a half firstSeq =
     (case h_saved half of
        [] \<Rightarrow> (a, half, 0)
      | p0 # ps \<Rightarrow>
          (let s = (\<Sum>p \<leftarrow> h_saved half. int (length (p_bytes p))) in
           if Add (p_seq p0) s \<noteq> firstSeq
           then (a\<lparr>pc := (pc a)\<lparr>used := used (pc a) - int (length (h_saved half))\<rparr>\<rparr>,
                 half\<lparr>h_saved := []\<rparr>, 0)
           else (a\<lparr>ret := map Page (h_saved half) @ ret a\<rparr>, half, s)))"

fun addContiguous_loop :: "page list \<Rightarrow> Sequence \<Rightarrow> byteContainer list \<Rightarrow>
    page list \<times> Sequence \<times> byteContainer list" where
  "addContiguous_loop [] lastSeq r = ([], lastSeq, r)"
| "addContiguous_loop (p # ps) lastSeq r =
     (if Difference lastSeq (p_seq p) = 0
      then addContiguous_loop ps (Add lastSeq (int (length (p_bytes p)))) (r @ [Page p])
      else (p # ps, lastSeq, r))"

definition addContiguous :: "Assembler \<Rightarrow> halfconnection \<Rightarrow> Sequence \<Rightarrow>
    Assembler \<times> halfconnection \<times> Sequence" where
  "addContiguous a half lastSeq =
     (case h_queue half of
        [] \<Rightarrow> (a, half, lastSeq)
      | p # ps \<Rightarrow>
          (let lastSeq1 = (if lastSeq = invalidSequence then p_seq p else lastSeq);
               (q, lastSeq2, r) = addContiguous_loop (h_queue half) lastSeq1 (ret a)
           in (a\<lparr>ret := r\<rparr>, half\<lparr>h_queue := q\<rparr>, lastSeq2)))"

subsection \<open>buildSG, cleanSG, sendToConnection\<close>

definition buildSG :: "Assembler \<Rightarrow> halfconnection \<Rightarrow>
    (Assembler \<times> halfconnection \<times> bool \<times> Sequence) option" where
  "buildSG a half =
     (case ret a of
        [] \<Rightarrow> None
      | r0 # rs \<Rightarrow>
          (let skip = (if h_nextSeq half \<noteq> invalidSequence
                       then Difference (h_nextSeq half) (getSeq r0) else -1);
               lastSeq = Add (getSeq r0) (c_length r0);
               (a1, half1, saved) = addPending a half (getSeq r0);
               (a2, half2, nextSeq) = addContiguous a1 half1 lastSeq;
               a3 = a2\<lparr>cacheSG := (cacheSG a2)\<lparr>sg_all := ret a2, Direction := h_dir half2,
                                                  Skip := skip, sg_saved := saved, toKeep := -1\<rparr>\<rparr>;
               (a4, half3) = setStatsToSG a3 half2
           in Some (a4, half3, isEnd (last (ret a4)), nextSeq)))"

text \<open>
  \<open>cleanSG\<close>. The first loop finds the index \<open>ndx\<close> of the first container to keep and
  the offset \<open>skip\<close>; \<open>find_keep\<close> returns both.
\<close>

fun find_keep :: "int \<Rightarrow> int \<Rightarrow> int \<Rightarrow> byteContainer list \<Rightarrow> nat \<times> int" where
  "find_keep tk cur skip [] = (0, skip)"
| "find_keep tk cur skip (r # rs) =
     (if tk < cur + c_length r then (0, skip)
      else (let (n, s) = find_keep tk (cur + c_length r)
                           (if skip \<ge> c_length r then skip - c_length r else skip) rs
            in (Suc n, s)))"

fun release_all :: "pageCache \<Rightarrow> byteContainer list \<Rightarrow> pageCache \<times> int" where
  "release_all c [] = (c, 0)"
| "release_all c (r # rs) =
     (let (c1, n) = release c r; (c2, m) = release_all c1 rs in (c2, n + m))"

fun keep_pages :: "pageCache \<Rightarrow> int \<Rightarrow> byteContainer list \<Rightarrow> (pageCache \<times> page list) option" where
  "keep_pages c skip [] = Some (c, [])"
| "keep_pages c skip (r # rs) =
     (case convertToPages c r skip of
        None \<Rightarrow> None
      | Some (c1, ps) \<Rightarrow>
          (case keep_pages c1 skip rs of
             None \<Rightarrow> None
           | Some (c2, qs) \<Rightarrow> Some (c2, ps @ qs)))"

text \<open>
  In the release loop the tests \<open>r == half.saved\<close> and \<open>r == half.first\<close> unlink a
  released page from the list that still holds it. The saved pages stand first in
  \<open>sg.all\<close>, in order, and \<open>half.saved\<close> is reset after the loop; a queue page enters
  \<open>a.ret\<close> only through \<open>addNextFromConn\<close> and \<open>addContiguous\<close>, which unlink it. So
  the loop leaves the queue as it is and the saved list is rebuilt from the kept
  containers.
\<close>

definition cleanSG :: "Assembler \<Rightarrow> halfconnection \<Rightarrow> (Assembler \<times> halfconnection) option" where
  "cleanSG a half =
     (let all = sg_all (cacheSG a);
          tk = toKeep (cacheSG a)
      in if tk \<ge> 0 \<and> all = [] then None
         else
           let (ndx, skip) = (if tk < 0 then (length all, 0) else find_keep tk 0 tk all);
               (c1, released) = release_all (pc a) (take ndx all)
           in case keep_pages c1 skip (drop ndx all) of
                None \<Rightarrow> None
              | Some (c2, ps) \<Rightarrow>
                  Some (a\<lparr>pc := c2\<rparr>, half\<lparr>h_pages := h_pages half - released, h_saved := ps\<rparr>))"

definition closeHalfConnection :: "Assembler \<Rightarrow> connection \<Rightarrow> TCPFlowDirection \<Rightarrow>
    Assembler \<times> connection" where
  "closeHalfConnection a conn d =
     (let half = getHalf conn d;
          n = int (length (h_queue half));
          half1 = half\<lparr>h_closed := True, h_pages := h_pages half - n\<rparr>;
          a1 = a\<lparr>pc := (pc a)\<lparr>used := used (pc a) - n\<rparr>\<rparr>;
          conn1 = setHalf conn d half1
      in if h_closed (s2c conn1) \<and> h_closed (c2s conn1)
         then (let r = ReassemblyComplete (stream conn1) (calls conn1);
                   conn2 = conn1\<lparr>calls := calls conn1 @ [CallReassemblyComplete]\<rparr>
               in if r then (a1\<lparr>connPool := pool_remove (connPool a1) (conn_key conn2)\<rparr>, conn2)
                  else (a1, conn2))
         else (a1, conn1))"

definition sendToConnection :: "Assembler \<Rightarrow> connection \<Rightarrow> TCPFlowDirection \<Rightarrow>
    (Assembler \<times> connection \<times> Sequence) option" where
  "sendToConnection a conn d =
     (case buildSG a (getHalf conn d) of
        None \<Rightarrow> None
      | Some (a1, half1, endFlag, nextSeq) \<Rightarrow>
          (let conn1 = setHalf conn d half1;
               tk = KeepFrom (stream conn1) (calls conn1) (cacheSG a1);
               conn2 = conn1\<lparr>calls := calls conn1 @ [CallReassembledSG (cacheSG a1)]\<rparr>;
               a2 = a1\<lparr>cacheSG := (cacheSG a1)\<lparr>toKeep := tk\<rparr>\<rparr>
           in case cleanSG a2 (getHalf conn2 d) of
                None \<Rightarrow> None
              | Some (a3, half2) \<Rightarrow>
                  (let conn3 = setHalf conn2 d half2;
                       (a4, conn4) = (if endFlag then closeHalfConnection a3 conn3 d else (a3, conn3))
                   in Some (a4, conn4, nextSeq))))"

subsection \<open>skipFlush\<close>

definition skipFlush :: "Assembler \<Rightarrow> connection \<Rightarrow> TCPFlowDirection \<Rightarrow>
    (Assembler \<times> connection) option" where
  "skipFlush a conn d =
     (if h_queue (getHalf conn d) = [] then Some (closeHalfConnection a conn d)
      else
        let (a1, half1) = addNextFromConn (a\<lparr>ret := []\<rparr>) (getHalf conn d) in
        case sendToConnection a1 (setHalf conn d half1) d of
          None \<Rightarrow> None
        | Some (a2, conn2, nextSeq) \<Rightarrow>
            if nextSeq \<noteq> invalidSequence
            then Some (a2, setHalf conn2 d ((getHalf conn2 d)\<lparr>h_nextSeq := nextSeq\<rparr>))
            else Some (a2, conn2))"

subsection \<open>AssembleWithContext\<close>

text \<open>
  The first argument after the assembler is what \<open>getConnection\<close> returned: no
  connection, or the connection with the direction of the half the segment belongs to.
  The result is \<open>None\<close> when a slice expression panics.
\<close>

text \<open>The decision between sending and queueing: the sequence number to hand on, the
  half connection with \<open>nextSeq\<close> set when the stream starts, and \<open>action.queue\<close>.\<close>

definition sequenceDecision :: "halfconnection \<Rightarrow> TCP \<Rightarrow> bool \<Rightarrow> Sequence \<times> halfconnection \<times> bool" where
  "sequenceDecision half t start =
     (let seq = uint (Seq t) in
      if h_nextSeq half = invalidSequence
      then (if SYN t then (Add seq 1, half\<lparr>h_nextSeq := Add seq 1\<rparr>, False)
            else if start then (seq, half\<lparr>h_nextSeq := seq\<rparr>, False)
            else (seq, half, True))
      else if Difference (h_nextSeq half) seq > 0 then (seq, half, True)
      else (seq, half, False))"

text \<open>The part of \<open>AssembleWithContext\<close> after the stream has accepted the segment and
  the half connection was found open.\<close>

definition assembleAccepted :: "Assembler \<Rightarrow> connection \<Rightarrow> TCPFlowDirection \<Rightarrow> TCP \<Rightarrow> int \<Rightarrow>
    (Assembler \<times> connection) option" where
  "assembleAccepted a conn d t timestamp =
     (let half1 = getHalf conn d;
          ack = uint (Ack t);
          bytes = Payload t;
          half2 = (if ACK t then half1\<lparr>h_ackSeq := ack\<rparr> else half1);
          (seq1, half3, queue) = sequenceDecision half2 t (a_start a)
      in case handleBytes a half3 bytes seq1 timestamp (SYN t) (RST t \<or> FIN t) queue of
           None \<Rightarrow> None
         | Some (a3, half4, queue1) \<Rightarrow>
             (case (if length (ret a3) > 0 then sendToConnection a3 (setHalf conn d half4) d
                    else Some (a3, setHalf conn d half4, invalidSequence)) of
                None \<Rightarrow> None
              | Some (a4, conn3, nextSeq) \<Rightarrow>
                  if nextSeq \<noteq> invalidSequence
                  then Some (a4, setHalf conn3 d
                               ((getHalf conn3 d)
                                  \<lparr>h_nextSeq := (if FIN t then Add nextSeq 1 else nextSeq)\<rparr>))
                  else Some (a4, conn3)))"

text \<open>The part of \<open>AssembleWithContext\<close> under the connection's lock.\<close>

definition assembleLocked :: "Assembler \<Rightarrow> connection \<Rightarrow> TCPFlowDirection \<Rightarrow> TCP \<Rightarrow> int \<Rightarrow>
    (Assembler \<times> connection) option" where
  "assembleLocked a conn d t timestamp =
     (let half = getHalf conn d;
          half1 = (if h_lastSeen half < timestamp then half\<lparr>h_lastSeen := timestamp\<rparr> else half);
          a1 = a\<lparr>a_start := (h_nextSeq half1 = invalidSequence \<and> SYN t)\<rparr>;
          (ok, st) = Accept (stream conn) (calls conn) t timestamp (h_dir half1) (h_nextSeq half1)
                       (a_start a1);
          a2 = a1\<lparr>a_start := st\<rparr>;
          conn1 = (setHalf conn d half1)
                    \<lparr>calls := calls conn @
                       [CallAccept t timestamp (h_dir half1) (h_nextSeq half1) (a_start a1)]\<rparr>
      in if \<not> ok then Some (a2, conn1)
         else if h_closed half1 then Some (a2, conn1)
         else assembleAccepted a2 conn1 d t timestamp)"

definition AssembleWithContext :: "Assembler \<Rightarrow> (connection \<times> TCPFlowDirection) option \<Rightarrow> TCP \<Rightarrow>
    int \<Rightarrow> (Assembler \<times> connection option) option" where
  "AssembleWithContext a gc t timestamp =
     (case gc of
        None \<Rightarrow> Some (a\<lparr>ret := []\<rparr>, None)
      | Some (conn, d) \<Rightarrow>
          map_option (\<lambda>(a1, conn1). (a1, Some conn1))
            (assembleLocked (a\<lparr>ret := []\<rparr>) conn d t timestamp))"


subsection \<open>FlushAll\<close>

text \<open>The loop \<open>for !half.closed { a.skipFlush(conn, half) }\<close> of \<open>FlushAll\<close>. Each
  round either closes the half or takes a page off its queue, which is why it ends.\<close>

lemma getHalf_setHalf [simp]: "getHalf (setHalf conn d h) d = h"
  by (cases d) (simp_all add: getHalf_def setHalf_def)

lemma getHalf_calls_update [simp]: "getHalf (conn\<lparr>calls := cs\<rparr>) d = getHalf conn d"
  by (cases d) (simp_all add: getHalf_def)

lemma addContiguous_loop_length:
  "addContiguous_loop q s r = (q1, s1, r1) \<Longrightarrow> length q1 \<le> length q"
  by (induction q s r rule: addContiguous_loop.induct) (auto split: if_splits)

lemma addContiguous_queue_length:
  assumes "addContiguous a h s = (a1, h1, s1)"
  shows "length (h_queue h1) \<le> length (h_queue h)"
proof (cases "h_queue h")
  case Nil
  then show ?thesis using assms by (simp add: addContiguous_def)
next
  case (Cons p ps)
  obtain q s2 r where l:
    "addContiguous_loop (h_queue h) (if s = invalidSequence then p_seq p else s) (ret a) = (q, s2, r)"
    by (cases "addContiguous_loop (h_queue h) (if s = invalidSequence then p_seq p else s) (ret a)") auto
  have "h_queue h1 = q"
    using assms Cons l by (auto simp: addContiguous_def Let_def simp del: addContiguous_loop.simps)
  then show ?thesis using addContiguous_loop_length [OF l] by simp
qed

lemma buildSG_queue_length:
  assumes "buildSG a h = Some (a1, h1, e, n)"
  shows "length (h_queue h1) \<le> length (h_queue h)"
proof -
  obtain r0 rs where r: "ret a = r0 # rs"
    using assms by (cases "ret a") (auto simp: buildSG_def)
  obtain a' h' sv where p: "addPending a h (getSeq r0) = (a', h', sv)"
    by (cases "addPending a h (getSeq r0)") auto
  have q: "h_queue h' = h_queue h"
    using p by (auto simp: addPending_def Let_def split: list.splits if_splits)
  obtain a'' h'' n'' where c: "addContiguous a' h' (Add (getSeq r0) (c_length r0)) = (a'', h'', n'')"
    by (cases "addContiguous a' h' (Add (getSeq r0) (c_length r0))") auto
  have "length (h_queue h'') \<le> length (h_queue h')"
    using c by (rule addContiguous_queue_length)
  moreover have "h_queue h1 = h_queue h''"
    using assms r p c by (auto simp: buildSG_def Let_def setStatsToSG_def)
  ultimately show ?thesis using q by simp
qed

lemma cleanSG_queue: "cleanSG a h = Some (a1, h1) \<Longrightarrow> h_queue h1 = h_queue h \<and> h_closed h1 = h_closed h"
  by (auto simp: cleanSG_def Let_def split: if_splits prod.splits option.splits)

lemma closeHalfConnection_half:
  "closeHalfConnection a conn d = (a1, conn1) \<Longrightarrow>
     h_closed (getHalf conn1 d) \<and> h_queue (getHalf conn1 d) = h_queue (getHalf conn d)"
  by (auto simp: closeHalfConnection_def Let_def split: if_splits)

lemma sendToConnection_queue_length:
  assumes "sendToConnection a conn d = Some (a1, conn1, n)"
  shows "length (h_queue (getHalf conn1 d)) \<le> length (h_queue (getHalf conn d))"
proof -
  obtain a' h' e n' where b: "buildSG a (getHalf conn d) = Some (a', h', e, n')"
    using assms by (auto simp: sendToConnection_def split: option.splits)
  obtain a'' h'' where c:
    "cleanSG (a'\<lparr>cacheSG := (cacheSG a')\<lparr>toKeep := KeepFrom (stream (setHalf conn d h'))
        (calls (setHalf conn d h')) (cacheSG a')\<rparr>\<rparr>) h' = Some (a'', h'')"
    using assms b by (auto simp: sendToConnection_def Let_def split: option.splits)
  have q: "h_queue h'' = h_queue h'" using c by (simp add: cleanSG_queue)
  have "h_queue (getHalf conn1 d) = h_queue h''"
    using assms b c
    by (auto simp: sendToConnection_def Let_def split: option.splits if_splits prod.splits
             dest: closeHalfConnection_half)
  then show ?thesis using q buildSG_queue_length [OF b] by simp
qed

lemma skipFlush_progress:
  assumes "skipFlush a conn d = Some (a1, conn1)"
  shows "h_closed (getHalf conn1 d) \<or>
         length (h_queue (getHalf conn1 d)) < length (h_queue (getHalf conn d))"
proof (cases "h_queue (getHalf conn d)")
  case Nil
  then show ?thesis
    using assms closeHalfConnection_half [of a conn d a1 conn1]
    by (simp add: skipFlush_def)
next
  case (Cons p ps)
  then obtain a2 conn2 n where s:
    "sendToConnection (a\<lparr>ret := [Page p]\<rparr>) (setHalf conn d ((getHalf conn d)\<lparr>h_queue := ps\<rparr>)) d
       = Some (a2, conn2, n)"
    and c1: "h_queue (getHalf conn1 d) = h_queue (getHalf conn2 d)"
    using assms
    by (auto simp: skipFlush_def addNextFromConn_def Let_def split: option.splits if_splits)
  show ?thesis
    using sendToConnection_queue_length [OF s] c1 Cons by simp
qed

function FlushAll_half :: "Assembler \<Rightarrow> connection \<Rightarrow> TCPFlowDirection \<Rightarrow>
    (Assembler \<times> connection) option" where
  "FlushAll_half a conn d =
     (if h_closed (getHalf conn d) then Some (a, conn)
      else (case skipFlush a conn d of
              None \<Rightarrow> None
            | Some (a1, conn1) \<Rightarrow> FlushAll_half a1 conn1 d))"
  by pat_completeness auto
termination
proof (relation "measure (\<lambda>(a, conn, d).
         if h_closed (getHalf conn d) then 0 else Suc (length (h_queue (getHalf conn d))))")
  show "wf (measure (\<lambda>(a, conn, d).
         if h_closed (getHalf conn d) then 0 else Suc (length (h_queue (getHalf conn d)))))"
    by simp
next
  fix a conn d x2 a1 conn1
  assume "\<not> h_closed (getHalf conn d)" and "skipFlush a conn d = Some x2" and "(a1, conn1) = x2"
  then show "((a1, conn1, d), a, conn, d) \<in> measure (\<lambda>(a, conn, d).
         if h_closed (getHalf conn d) then 0 else Suc (length (h_queue (getHalf conn d))))"
    using skipFlush_progress [of a conn d a1 conn1] by auto
qed

declare FlushAll_half.simps [simp del]

text \<open>The body of \<open>FlushAll\<close> for one connection: the half \<open>s2c\<close>, then \<open>c2s\<close>; the
  test after each loop is kept as the code has it.\<close>

definition FlushAll_one :: "Assembler \<Rightarrow> connection \<Rightarrow> TCPFlowDirection \<Rightarrow>
    (Assembler \<times> connection) option" where
  "FlushAll_one a conn d =
     (case FlushAll_half a conn d of
        None \<Rightarrow> None
      | Some (a1, conn1) \<Rightarrow>
          if \<not> h_closed (getHalf conn1 d) then Some (closeHalfConnection a1 conn1 d)
          else Some (a1, conn1))"

definition FlushAll_conn :: "Assembler \<Rightarrow> connection \<Rightarrow> (Assembler \<times> connection) option" where
  "FlushAll_conn a conn =
     (case FlushAll_one a conn TCPDirServerToClient of
        None \<Rightarrow> None
      | Some (a1, conn1) \<Rightarrow> FlushAll_one a1 conn1 TCPDirClientToServer)"

fun FlushAll_conns :: "Assembler \<Rightarrow> connection list \<Rightarrow> (Assembler \<times> connection list) option" where
  "FlushAll_conns a [] = Some (a, [])"
| "FlushAll_conns a (conn # conns) =
     (case FlushAll_conn a conn of
        None \<Rightarrow> None
      | Some (a1, conn1) \<Rightarrow>
          (case FlushAll_conns a1 conns of
             None \<Rightarrow> None
           | Some (a2, conns1) \<Rightarrow> Some (a2, conn1 # conns1)))"

text \<open>\<open>FlushAll\<close>, given the connections \<open>a.connPool.connections()\<close> returns: the count,
  the assembler and the connections as the call leaves them.\<close>

definition FlushAll :: "Assembler \<Rightarrow> connection list \<Rightarrow>
    (int \<times> Assembler \<times> connection list) option" where
  "FlushAll a conns =
     map_option (\<lambda>(a1, conns1). (int (length conns), a1, conns1)) (FlushAll_conns a conns)"

subsection \<open>FlushWithOptions\<close>

text \<open>Modelled from the spec: \<open>conn.lastSeen()\<close> belongs to the connection type, which
  is not among the sources. The specification closes a half when both halves'
  \<open>lastSeen\<close> are older than the threshold, so the time of the connection is the later
  of the two. Times are integers, \<open>Before\<close> is \<open><\<close>.\<close>

definition lastSeen :: "connection \<Rightarrow> int" where
  "lastSeen conn = max (h_lastSeen (c2s conn)) (h_lastSeen (s2c conn))"

text \<open>The loop of \<open>flushClose\<close>; the last component of the result tells that the loop
  has left the function with \<open>closed = true\<close>. A round that does not close the half takes
  a page off its queue.\<close>

function flushClose_loop :: "Assembler \<Rightarrow> connection \<Rightarrow> TCPFlowDirection \<Rightarrow> int \<Rightarrow> bool \<Rightarrow>
    (Assembler \<times> connection \<times> bool \<times> bool) option" where
  "flushClose_loop a conn d t flushed =
     (case h_queue (getHalf conn d) of
        [] \<Rightarrow> Some (a, conn, flushed, False)
      | p # ps \<Rightarrow>
          if p_seen p < t then
            (case skipFlush a conn d of
               None \<Rightarrow> None
             | Some (a1, conn1) \<Rightarrow>
                 if h_closed (getHalf conn1 d) then Some (a1, conn1, True, True)
                 else flushClose_loop a1 conn1 d t True)
          else Some (a, conn, flushed, False))"
  by pat_completeness auto
termination
proof (relation "measure (\<lambda>(a, conn, d, t, f). length (h_queue (getHalf conn d)))")
  show "wf (measure (\<lambda>(a, conn, d, t, f). length (h_queue (getHalf conn d))))"
    by simp
next
  fix a conn d x2 a1 conn1 and t :: int and flushed :: bool
  assume "skipFlush a conn d = Some x2" and "(a1, conn1) = x2"
    and "\<not> h_closed (getHalf conn1 d)"
  then show "((a1, conn1, d, t, True), a, conn, d, t, flushed)
      \<in> measure (\<lambda>(a, conn, d, t, f). length (h_queue (getHalf conn d)))"
    using skipFlush_progress [of a conn d a1 conn1] by auto
qed

declare flushClose_loop.simps [simp del]

definition flushClose :: "Assembler \<Rightarrow> connection \<Rightarrow> TCPFlowDirection \<Rightarrow> int \<Rightarrow> int \<Rightarrow>
    (Assembler \<times> connection \<times> bool \<times> bool) option" where
  "flushClose a conn d t tc =
     (if h_closed (getHalf conn d) then Some (a, conn, False, False)
      else
        case flushClose_loop a conn d t False of
          None \<Rightarrow> None
        | Some (a1, conn1, flushed, closed) \<Rightarrow>
            if closed then Some (a1, conn1, flushed, True)
            else if \<not> h_closed (getHalf conn1 d) \<and> h_queue (getHalf conn1 d) = [] \<and>
                    lastSeen conn1 < tc
            then (let (a2, conn2) = closeHalfConnection a1 conn1 d
                  in Some (a2, conn2, flushed, True))
            else Some (a1, conn1, flushed, False))"

text \<open>The body of \<open>FlushWithOptions\<close> for one connection, with the numbers it adds to
  \<open>flushes\<close> and \<open>closes\<close>; then the loop over the connections.\<close>

definition FlushWithOptions_conn :: "Assembler \<Rightarrow> connection \<Rightarrow> int \<Rightarrow> int \<Rightarrow>
    (Assembler \<times> connection \<times> int \<times> int) option" where
  "FlushWithOptions_conn a conn t tc =
     (case flushClose a conn TCPDirServerToClient t tc of
        None \<Rightarrow> None
      | Some (a1, conn1, f1, c1) \<Rightarrow>
          (case flushClose a1 conn1 TCPDirClientToServer t tc of
             None \<Rightarrow> None
           | Some (a2, conn2, f2, c2) \<Rightarrow>
               let remove = (h_closed (s2c conn2) \<and> h_closed (c2s conn2) \<and>
                             h_lastSeen (s2c conn2) < tc \<and> h_lastSeen (c2s conn2) < tc);
                   a3 = (if remove
                         then a2\<lparr>connPool := pool_remove (connPool a2) (conn_key conn2)\<rparr>
                         else a2)
               in Some (a3, conn2, (if f1 then 1 else 0) + (if f2 then 1 else 0),
                        (if c1 then 1 else 0) + (if c2 then 1 else 0))))"

fun FlushWithOptions_conns :: "Assembler \<Rightarrow> connection list \<Rightarrow> int \<Rightarrow> int \<Rightarrow>
    (Assembler \<times> connection list \<times> int \<times> int) option" where
  "FlushWithOptions_conns a [] t tc = Some (a, [], 0, 0)"
| "FlushWithOptions_conns a (conn # conns) t tc =
     (case FlushWithOptions_conn a conn t tc of
        None \<Rightarrow> None
      | Some (a1, conn1, f1, c1) \<Rightarrow>
          (case FlushWithOptions_conns a1 conns t tc of
             None \<Rightarrow> None
           | Some (a2, conns1, f2, c2) \<Rightarrow> Some (a2, conn1 # conns1, f1 + f2, c1 + c2)))"

definition FlushWithOptions :: "Assembler \<Rightarrow> connection list \<Rightarrow> int \<Rightarrow> int \<Rightarrow>
    (int \<times> int \<times> Assembler \<times> connection list) option" where
  "FlushWithOptions a conns t tc =
     map_option (\<lambda>(a1, conns1, flushes, closes). (flushes, closes, a1, conns1))
       (FlushWithOptions_conns a conns t tc)"

definition FlushCloseOlderThan :: "Assembler \<Rightarrow> connection list \<Rightarrow> int \<Rightarrow>
    (int \<times> int \<times> Assembler \<times> connection list) option" where
  "FlushCloseOlderThan a conns t = FlushWithOptions a conns t t"

subsection \<open>Running segments; what the consumer received\<close>

text \<open>A run of \<open>AssembleWithContext\<close> over segments of one connection, each with its
  direction and time stamp.\<close>

fun assembleAll :: "Assembler \<Rightarrow> connection \<Rightarrow> (TCPFlowDirection \<times> TCP \<times> int) list \<Rightarrow>
    (Assembler \<times> connection) option" where
  "assembleAll a conn [] = Some (a, conn)"
| "assembleAll a conn ((d, t, ts) # segs) =
     (case AssembleWithContext a (Some (conn, d)) t ts of
        Some (a1, Some conn1) \<Rightarrow> assembleAll a1 conn1 segs
      | _ \<Rightarrow> None)"

text \<open>The payload of one delivery: the bytes of \<open>sg.all\<close> in order. The deliveries of
  a connection are the payloads of its \<open>ReassembledSG\<close> calls, with their directions.\<close>

definition sg_payload :: "reassemblyObject \<Rightarrow> bytes" where
  "sg_payload sg = concat (map getBytes (sg_all sg))"

fun deliveries :: "call list \<Rightarrow> (TCPFlowDirection \<times> bytes) list" where
  "deliveries [] = []"
| "deliveries (CallReassembledSG sg # cs) = (Direction sg, sg_payload sg) # deliveries cs"
| "deliveries (c # cs) = deliveries cs"

subsection \<open>Notions used in the statements\<close>

text \<open>Two half connections that differ at most in the overlap counters and the
  page count.\<close>

definition keeps :: "halfconnection \<Rightarrow> halfconnection \<Rightarrow> bool" where
  "keeps h h1 \<longleftrightarrow>
     h_dir h1 = h_dir h \<and> h_saved h1 = h_saved h \<and> h_queue h1 = h_queue h \<and>
     h_nextSeq h1 = h_nextSeq h \<and> h_ackSeq h1 = h_ackSeq h \<and> h_lastSeen h1 = h_lastSeen h \<and>
     h_closed h1 = h_closed h \<and> queuedPackets h1 = queuedPackets h \<and> queuedBytes h1 = queuedBytes h"

text \<open>The bytes of a list of pages, counted.\<close>

definition pages_len :: "page list \<Rightarrow> int" where
  "pages_len ps = (\<Sum>p\<leftarrow>ps. int (length (p_bytes p)))"


text \<open>The containers the stream has been handed in \<open>ReassembledSG\<close> calls.\<close>

fun delivered :: "call list \<Rightarrow> byteContainer list" where
  "delivered [] = []"
| "delivered (CallReassembledSG sg # cs) = sg_all sg @ delivered cs"
| "delivered (c # cs) = delivered cs"

text \<open>The specification's words for the flush of one half: skip-flush it again and again
  until it is closed. \<open>skipFlush_times n\<close> is \<open>n\<close> calls of \<open>skipFlush\<close> in a row;
  \<open>skipFlushed_until_closed n\<close> says that the \<open>n\<close>-th call is the first that leaves the
  half closed.\<close>

fun skipFlush_times :: "nat \<Rightarrow> Assembler \<Rightarrow> connection \<Rightarrow> TCPFlowDirection \<Rightarrow>
    (Assembler \<times> connection) option" where
  "skipFlush_times 0 a conn d = Some (a, conn)"
| "skipFlush_times (Suc n) a conn d =
     (case skipFlush a conn d of
        None \<Rightarrow> None
      | Some (a1, conn1) \<Rightarrow> skipFlush_times n a1 conn1 d)"

definition skipFlushed_until_closed :: "nat \<Rightarrow> Assembler \<Rightarrow> connection \<Rightarrow> TCPFlowDirection \<Rightarrow>
    Assembler \<Rightarrow> connection \<Rightarrow> bool" where
  "skipFlushed_until_closed n a conn d a1 conn1 \<longleftrightarrow>
     skipFlush_times n a conn d = Some (a1, conn1) \<and> h_closed (getHalf conn1 d) \<and>
     (\<forall>k<n. case skipFlush_times k a conn d of
               None \<Rightarrow> False
             | Some (ak, ck) \<Rightarrow> \<not> h_closed (getHalf ck d))"



subsection \<open>A concrete assembler and connection for evaluation\<close>

definition example_stream :: Stream where
  "example_stream = \<lparr>Accept = (\<lambda>cs t ts d n st. (True, st)), KeepFrom = (\<lambda>cs sg. -1),
     ReassemblyComplete = (\<lambda>cs. True)\<rparr>"

definition example_half :: "TCPFlowDirection \<Rightarrow> halfconnection" where
  "example_half d = \<lparr>h_dir = d, h_pages = 0, h_saved = [], h_queue = [],
     h_nextSeq = invalidSequence, h_ackSeq = invalidSequence, h_lastSeen = 0, h_closed = False,
     queuedPackets = 0, queuedBytes = 0, overlapPackets = 0, overlapBytes = 0\<rparr>"

definition example_key :: key where
  "example_key = (\<lparr>Src = ''10.0.0.1'', Dst = ''10.0.0.2''\<rparr>, \<lparr>Src = ''4242'', Dst = ''80''\<rparr>)"

definition example_conn :: connection where
  "example_conn = \<lparr>conn_key = example_key, c2s = example_half TCPDirClientToServer,
     s2c = example_half TCPDirServerToClient, stream = example_stream, calls = []\<rparr>"

definition example_assembler :: Assembler where
  "example_assembler = \<lparr>MaxBufferedPagesTotal = 0, MaxBufferedPagesPerConnection = 0, ret = [],
     pc = \<lparr>used = 0, pc_size = 0, pageBytes = 1900\<rparr>, connPool = [example_key],
     cacheLP = \<lparr>lp_bytes = [], lp_seq = 0, lp_start = False, lp_end = False, lp_ci = 0\<rparr>,
     cacheSG = \<lparr>sg_all = [], Skip = 0, Direction = TCPDirClientToServer, sg_saved = 0, toKeep = 0,
       sg_queuedBytes = 0, sg_queuedPackets = 0, sg_overlapBytes = 0, sg_overlapPackets = 0\<rparr>,
     a_start = False\<rparr>"

definition rejecting_stream :: Stream where
  "rejecting_stream = example_stream\<lparr>Accept := (\<lambda>cs t ts d n st. (False, st))\<rparr>"

definition seg :: "32 word \<Rightarrow> bytes \<Rightarrow> TCP" where
  "seg s b = \<lparr>Seq = s, Ack = 0, SYN = False, ACK = False, FIN = False, RST = False, Payload = b\<rparr>"

text \<open>A half connection expecting sequence number 1001 with the four bytes \<open>WXYZ\<close>
  queued at 1010, and an assembler whose packet is \<open>abcd\<close> at 1008.\<close>

definition overlap_half :: halfconnection where
  "overlap_half = (example_half TCPDirClientToServer)
     \<lparr>h_nextSeq := 1001, h_pages := 1,
      h_queue := [\<lparr>p_bytes = ''WXYZ'', p_seq = 1010, p_seen = 2, p_start = False, p_end = False,
                   p_isPacket = True\<rparr>]\<rparr>"

definition overlap_assembler :: Assembler where
  "overlap_assembler = example_assembler
     \<lparr>cacheLP := \<lparr>lp_bytes = ''abcd'', lp_seq = 1008, lp_start = False, lp_end = False, lp_ci = 3\<rparr>\<rparr>"







section \<open>Properties of the reader pipeline\<close>

lemma run_harvesters_frame:
  "files (run_harvesters chs raw ident fp w) = files w \<and>
   savedConnections (run_harvesters chs raw ident fp w) = savedConnections w \<and>
   dirs (run_harvesters chs raw ident fp w) = dirs w \<and>
   logs (run_harvesters chs raw ident fp w) = logs w"
  by (induction chs arbitrary: w) (auto split: option.splits simp: Let_def)

text \<open>
  C7, as the specification states it: the client-side cleanup with a non-empty
  conversation appends the raw conversation bytes to the connection's file. This fails.
  A client reader receives the chunk \<open>A\<close>; \<open>Read\<close> records \<open>A\<close> as the raw
  conversation and the colour-framed chunk as the coloured one; \<open>Cleanup\<close> then writes
  the coloured conversation, which differs from the raw one.
\<close>

theorem Cleanup_writes_raw_counterexample:
  "(case Read example_env example_reader example_parent 512 of
      Blocked \<Rightarrow> False
    | Received (r, d, h1, p1) \<Rightarrow>
        conversationRaw p1 = ''A'' \<and>
        (case Cleanup example_env \<lparr>wg = 2, numActive = 2\<rparr> h1 p1 empty_world of
           Inl p \<Rightarrow> False
         | Inr (f', h', p', w') \<Rightarrow>
             files w' ''out/tcpConnections/http/a-b.bin'' = Some ''<r>A<0>'' \<and>
             files w' ''out/tcpConnections/http/a-b.bin'' \<noteq> Some (conversationRaw p1)))"
  by (simp add: Read_def example_env_def example_reader_def example_parent_def empty_world_def
       Cleanup_def saveConnection_def wg_Done_def getServiceName_def atoi_example_def append_file_def
       Let_def)

text \<open>
  C7, amended: when the client-side reader runs \<open>Cleanup\<close> with a non-empty raw
  conversation (and the wait group still counts this reader), the reader is marked saved
  and the \<open>savedConnections\<close> counter is incremented by one, whether or not the file
  can be written; and when the file opens and the copy succeeds, the coloured
  conversation (the raw bytes framed by the colour codes of each direction) is appended
  to the file whose path is built from the output directory, \<open>tcpConnections\<close>, the
  service class and the identifier followed by \<open>.bin\<close>.
\<close>

theorem Cleanup_saves_colored:
  assumes "isClient h" and "conversationRaw parent \<noteq> []" and "0 < wg f"
  shows "\<exists>f' h' parent' w'.
           Cleanup e f h parent w = Inr (f', h', parent', w') \<and>
           r_saved h' \<and>
           savedConnections w' = savedConnections w + 1 \<and>
           (OpenFile_ok e (connection_path e (conversationRaw parent) (c_ident parent) (c_transport parent)) \<and>
            Copy_err e (connection_path e (conversationRaw parent) (c_ident parent) (c_transport parent))
              (conversationColored parent) = None \<longrightarrow>
            files w' = append_file (files w)
              (connection_path e (conversationRaw parent) (c_ident parent) (c_transport parent))
              (conversationColored parent))"
  using assms
  by (auto simp: Cleanup_def wg_Done_def saveConnection_def Let_def connection_path_def
        run_harvesters_frame append_file_def
      split: prod.splits option.splits)

theorem Cleanup_saves_colored_witness:
  "\<exists>f' h' parent' w'.
     Cleanup example_env \<lparr>wg = 2, numActive = 2\<rparr> example_reader
       (example_parent\<lparr>conversationRaw := ''A'', conversationColored := ''<r>A<0>''\<rparr>) empty_world =
       Inr (f', h', parent', w') \<and>
     r_saved h' \<and> savedConnections w' = 1 \<and>
     files w' ''out/tcpConnections/http/a-b.bin'' = Some ''<r>A<0>''"
  using Cleanup_saves_colored [of example_reader
      "example_parent\<lparr>conversationRaw := ''A'', conversationColored := ''<r>A<0>''\<rparr>"
      "\<lparr>wg = 2, numActive = 2\<rparr>" example_env empty_world]
  by (auto simp: example_env_def example_reader_def example_parent_def empty_world_def
       connection_path_def getServiceName_def atoi_example_def append_file_def)

text \<open>
  C8: the service class is the registry's answer for the destination port when that
  answer is not empty; otherwise it is \<open>utf8\<close> when the payload is valid UTF-8 and
  \<open>unknown\<close> when it is not.
\<close>

theorem getServiceName_cases:
  "(LookupServiceByPort e (Atoi e (Dst destination)) ''tcp'' \<noteq> [] \<longrightarrow>
      getServiceName e data destination = LookupServiceByPort e (Atoi e (Dst destination)) ''tcp'') \<and>
   (LookupServiceByPort e (Atoi e (Dst destination)) ''tcp'' = [] \<and> ValidString e data \<longrightarrow>
      getServiceName e data destination = ''utf8'') \<and>
   (LookupServiceByPort e (Atoi e (Dst destination)) ''tcp'' = [] \<and> \<not> ValidString e data \<longrightarrow>
      getServiceName e data destination = ''unknown'')"
  by (simp add: getServiceName_def Let_def)

theorem getServiceName_cases_witness:
  "getServiceName example_env ''hello'' \<lparr>Src = ''4242'', Dst = ''80''\<rparr> = ''http'' \<and>
   getServiceName example_env ''hello'' \<lparr>Src = ''4242'', Dst = ''81''\<rparr> = ''utf8'' \<and>
   getServiceName example_env [CHR 0xFF] \<lparr>Src = ''4242'', Dst = ''81''\<rparr> = ''unknown''"
  using getServiceName_cases [of example_env "\<lparr>Src = ''4242'', Dst = ''80''\<rparr>" "''hello''"]
        getServiceName_cases [of example_env "\<lparr>Src = ''4242'', Dst = ''81''\<rparr>" "''hello''"]
        getServiceName_cases [of example_env "\<lparr>Src = ''4242'', Dst = ''81''\<rparr>" "[CHR 0xFF]"]
  by (simp add: example_env_def atoi_example_def)

text \<open>
  C9: every \<open>Cleanup\<close> performs exactly one \<open>wg.Done\<close> and exactly one decrement of
  \<open>numActive\<close>, on the path of the first direction to close (which also sets the
  parent's \<open>last\<close> flag) as on the path of the second; so the two readers of one
  connection lower both counters by exactly two.
\<close>

theorem Cleanup_decrements_once:
  assumes "0 < wg f"
  shows "\<exists>h' parent' w'.
           Cleanup e f h parent w =
             Inr (f\<lparr>wg := wg f - 1, numActive := numActive f - 1\<rparr>, h', parent', w') \<and>
           c_last parent' \<and>
           (\<forall>h2 w2. 1 < wg f \<longrightarrow>
              (\<exists>h2' parent'' w2'.
                 Cleanup e (f\<lparr>wg := wg f - 1, numActive := numActive f - 1\<rparr>) h2 parent' w2 =
                   Inr (f\<lparr>wg := wg f - 2, numActive := numActive f - 2\<rparr>, h2', parent'', w2')))"
  using assms
  by (auto simp: Cleanup_def wg_Done_def Let_def split: prod.splits option.splits)

theorem Cleanup_decrements_once_witness:
  "\<exists>h' parent' w'.
     Cleanup example_env \<lparr>wg = 2, numActive = 2\<rparr> example_reader example_parent empty_world =
       Inr (\<lparr>wg = 1, numActive = 1\<rparr>, h', parent', w') \<and>
     (\<exists>h2' parent'' w2'.
        Cleanup example_env \<lparr>wg = 1, numActive = 1\<rparr> (example_reader\<lparr>isClient := False\<rparr>) parent' w' =
          Inr (\<lparr>wg = 0, numActive = 0\<rparr>, h2', parent'', w2'))"
  using Cleanup_decrements_once [of "\<lparr>wg = 2, numActive = 2\<rparr>" example_env example_reader example_parent empty_world]
  by auto

text \<open>
  C10: with an empty raw conversation \<open>saveConnection\<close> returns \<open>nil\<close> at once and
  leaves everything as it was: no harvester has run, no credentials record is written,
  no directory or file is created and \<open>savedConnections\<close> keeps its value.
\<close>

theorem saveConnection_empty:
  "saveConnection e w [] colored ident firstPacket transport = (None, w)"
  by (simp add: saveConnection_def)

section \<open>Properties of the reassembler\<close>

lemma getHalf_setHalf_other [simp]:
  "getHalf (setHalf conn d h) (rev_dir d) = getHalf conn (rev_dir d)"
  by (cases d) (simp_all add: getHalf_def setHalf_def rev_dir_def)

lemma setHalf_fields [simp]:
  "conn_key (setHalf conn d h) = conn_key conn"
  "stream (setHalf conn d h) = stream conn"
  "calls (setHalf conn d h) = calls conn"
  by (cases d; simp add: setHalf_def)+

text \<open>
  C5, as the specification states it: when \<open>Accept\<close> rejects a segment, every field of
  both half connections, \<open>lastSeen\<close> included, is as before the call. This fails: a
  fresh connection last seen at time 0 receives a segment stamped 10 that its stream
  rejects, and \<open>lastSeen\<close> of the segment's half is 10 afterwards.
\<close>

theorem AssembleWithContext_rejected_counterexample:
  "(case AssembleWithContext example_assembler
           (Some (example_conn\<lparr>stream := rejecting_stream\<rparr>, TCPDirClientToServer))
           (seg 1000 ''AB'') 10 of
      Some (a1, Some conn1) \<Rightarrow>
        h_lastSeen (c2s (example_conn\<lparr>stream := rejecting_stream\<rparr>)) = 0 \<and>
        h_lastSeen (c2s conn1) = 10
    | _ \<Rightarrow> False)"
  by (simp add: AssembleWithContext_def assembleLocked_def Let_def example_conn_def
        example_half_def rejecting_stream_def example_stream_def getHalf_def setHalf_def
        example_assembler_def seg_def invalidSequence_def)

text \<open>
  C5, amended: when \<open>Accept\<close> rejects a segment, \<open>AssembleWithContext\<close> returns having
  dropped it. Of the connection that \<open>getConnection\<close> handed over for the segment, only
  \<open>lastSeen\<close> of the segment's half may have changed: it is the later of its old value
  and the segment's time stamp, the update standing before the call of \<open>Accept\<close>.
  \<open>ackSeq\<close>, \<open>nextSeq\<close>, the queue, the saved list, the closed flag and the counters of
  that half are as before, and the other half is as before. The stream has received the
  one \<open>Accept\<close> call.
\<close>

theorem AssembleWithContext_rejected:
  assumes "\<not> fst (Accept (stream conn) (calls conn) t ts (h_dir (getHalf conn d))
                   (h_nextSeq (getHalf conn d))
                   (h_nextSeq (getHalf conn d) = invalidSequence \<and> SYN t))"
  shows "\<exists>a1 conn1.
           AssembleWithContext a (Some (conn, d)) t ts = Some (a1, Some conn1) \<and>
           getHalf conn1 d =
             (getHalf conn d)\<lparr>h_lastSeen := max (h_lastSeen (getHalf conn d)) ts\<rparr> \<and>
           getHalf conn1 (rev_dir d) = getHalf conn (rev_dir d) \<and>
           conn_key conn1 = conn_key conn \<and> stream conn1 = stream conn \<and>
           calls conn1 = calls conn @
             [CallAccept t ts (h_dir (getHalf conn d)) (h_nextSeq (getHalf conn d))
                (h_nextSeq (getHalf conn d) = invalidSequence \<and> SYN t)]"
  using assms
  by (auto simp: AssembleWithContext_def assembleLocked_def Let_def max_def split: prod.splits)

theorem AssembleWithContext_rejected_witness:
  "(case AssembleWithContext example_assembler
           (Some (example_conn\<lparr>stream := rejecting_stream\<rparr>, TCPDirClientToServer))
           (seg 1000 ''AB'') 10 of
      Some (a1, Some conn1) \<Rightarrow>
        c2s conn1 = (example_half TCPDirClientToServer)\<lparr>h_lastSeen := 10\<rparr> \<and>
        s2c conn1 = example_half TCPDirServerToClient \<and>
        deliveries (calls conn1) = []
    | _ \<Rightarrow> False)"
  using AssembleWithContext_rejected [of "example_conn\<lparr>stream := rejecting_stream\<rparr>"
     "seg 1000 ''AB''" 10 TCPDirClientToServer example_assembler]
  by (auto simp: example_conn_def example_half_def rejecting_stream_def example_stream_def
        getHalf_def rev_dir_def example_assembler_def seg_def invalidSequence_def)

lemma keeps_refl [simp]: "keeps h h"
  by (simp add: keeps_def)

lemma keeps_trans: "keeps h h1 \<Longrightarrow> keeps h1 h2 \<Longrightarrow> keeps h h2"
  by (simp add: keeps_def)

lemma dir_cases: "d' = d \<or> d' = rev_dir d"
  by (cases d; cases d') (simp_all add: rev_dir_def)

lemma checkOverlap_step_half:
  assumes "checkOverlap_step s e cur b h c = Some (Continue keep b1 h1 c1)"
  shows "keeps h h1"
proof -
  have "h1 = h \<or> h1 = h\<lparr>overlapPackets :=
                         (if p_isPacket cur then overlapPackets h + 1 else overlapPackets h),
                       overlapBytes := overlapBytes h + int (length (p_bytes cur)),
                       h_pages := h_pages h - 1\<rparr>"
    using assms unfolding checkOverlap_step_def Let_def
    by (simp split: if_splits option.splits)
  then show ?thesis by (auto simp: keeps_def)
qed

lemma checkOverlap_loop_half:
  "checkOverlap_loop s e l r b h c = Some (l1, r1, b1, h1, c1) \<Longrightarrow> keeps h h1"
proof (induction l arbitrary: r b h c)
  case Nil
  then show ?case by simp
next
  case (Cons cur l)
  show ?case
  proof (cases "checkOverlap_step s e cur b h c")
    case None
    then show ?thesis using Cons.prems by simp
  next
    case (Some st)
    show ?thesis
    proof (cases st)
      case (Break p)
      then show ?thesis using Cons.prems Some by simp
    next
      case (Continue keep b2 h2 c2)
      then have "checkOverlap_loop s e l (keep @ r) b2 h2 c2 = Some (l1, r1, b1, h1, c1)"
        using Cons.prems Some by simp
      then have "keeps h2 h1" by (rule Cons.IH)
      moreover have "keeps h h2"
        using Some Continue by (auto dest: checkOverlap_step_half)
      ultimately show ?thesis by (blast intro: keeps_trans)
    qed
  qed
qed

lemma checkOverlap_closed:
  assumes "checkOverlap a h q = Some (a1, h1)"
  shows "h_closed h1 = h_closed h \<and> h_nextSeq h1 = h_nextSeq h \<and> h_saved h1 = h_saved h \<and>
         h_dir h1 = h_dir h \<and> h_lastSeen h1 = h_lastSeen h \<and> h_ackSeq h1 = h_ackSeq h \<and>
         connPool a1 = connPool a \<and> ret a1 = ret a \<and>
         MaxBufferedPagesTotal a1 = MaxBufferedPagesTotal a \<and>
         MaxBufferedPagesPerConnection a1 = MaxBufferedPagesPerConnection a"
proof -
  obtain l1 r1 b1 h2 c1 where l:
    "checkOverlap_loop (lp_seq (cacheLP a))
       (Add (lp_seq (cacheLP a)) (int (length (lp_bytes (cacheLP a)))))
       (rev (h_queue h)) [] (lp_bytes (cacheLP a)) h (pc a) = Some (l1, r1, b1, h2, c1)"
    using assms by (auto simp: checkOverlap_def Let_def split: option.splits)
  have k: "keeps h h2" using l by (rule checkOverlap_loop_half)
  show ?thesis
    using assms l k
    by (auto simp: checkOverlap_def Let_def keeps_def split: option.splits if_splits)
qed

lemma overlapExisting_closed:
  "overlapExisting h s e b = Some (h1, b1, s1) \<Longrightarrow>
     h_closed h1 = h_closed h \<and> h_nextSeq h1 = h_nextSeq h \<and> h_saved h1 = h_saved h \<and>
     h_queue h1 = h_queue h \<and> h_dir h1 = h_dir h \<and> h_lastSeen h1 = h_lastSeen h \<and>
     h_ackSeq h1 = h_ackSeq h"
  by (auto simp: overlapExisting_def Let_def split: if_splits option.splits)

lemma handleBytes_False:
  "handleBytes a h b s ci st en False =
     (case overlapExisting h s (Add s (int (length b))) b of
        None \<Rightarrow> None
      | Some (h1, b1, s1) \<Rightarrow>
          (case checkOverlap
                  (a\<lparr>cacheLP := \<lparr>lp_bytes = b1, lp_seq = s1, lp_start = st, lp_end = en,
                                  lp_ci = ci\<rparr>\<rparr>) h1 False of
             None \<Rightarrow> None
           | Some (a2, h2) \<Rightarrow>
               if length (lp_bytes (cacheLP a2)) \<noteq> 0 \<or> en \<or> st
               then Some (a2\<lparr>ret := ret a2 @ [Live (cacheLP a2)]\<rparr>, h2, False)
               else Some (a2, h2, False)))"
  by (simp add: handleBytes_def Let_def split: option.split)

lemma handleBytes_True:
  "handleBytes a h b s ci st en True =
     (case checkOverlap
             (a\<lparr>cacheLP := \<lparr>lp_bytes = b, lp_seq = s, lp_start = st, lp_end = en, lp_ci = ci\<rparr>\<rparr>)
             h True of
        None \<Rightarrow> None
      | Some (a1, h1) \<Rightarrow>
          if (MaxBufferedPagesPerConnection a1 > 0 \<and>
              h_pages h1 \<ge> MaxBufferedPagesPerConnection a1) \<or>
             (MaxBufferedPagesTotal a1 > 0 \<and> used (pc a1) \<ge> MaxBufferedPagesTotal a1)
          then (let (a2, h2) = addNextFromConn a1 h1 in Some (a2, h2, False))
          else Some (a1, h1, True))"
  by (simp add: handleBytes_def Let_def)

lemma handleBytes_closed:
  assumes "handleBytes a h b s ci st en q = Some (a1, h1, q1)"
  shows "h_closed h1 = h_closed h \<and> h_nextSeq h1 = h_nextSeq h \<and> h_saved h1 = h_saved h \<and>
         h_dir h1 = h_dir h \<and> h_lastSeen h1 = h_lastSeen h \<and> h_ackSeq h1 = h_ackSeq h \<and>
         connPool a1 = connPool a"
proof (cases q)
  case True
  then have q: "q = True" by simp
  note hb = assms [unfolded q handleBytes_True]
  obtain a2 h2 where c:
    "checkOverlap (a\<lparr>cacheLP := \<lparr>lp_bytes = b, lp_seq = s, lp_start = st, lp_end = en, lp_ci = ci\<rparr>\<rparr>)
       h True = Some (a2, h2)"
    using hb
    by (cases "checkOverlap (a\<lparr>cacheLP := \<lparr>lp_bytes = b, lp_seq = s, lp_start = st,
          lp_end = en, lp_ci = ci\<rparr>\<rparr>) h True") auto
  have "(a1 = a2 \<and> h1 = h2) \<or> (a1, h1) = addNextFromConn a2 h2"
    using hb c by (auto split: if_splits prod.splits)
  then have "connPool a1 = connPool a2 \<and> h_closed h1 = h_closed h2 \<and>
      h_nextSeq h1 = h_nextSeq h2 \<and> h_saved h1 = h_saved h2 \<and> h_dir h1 = h_dir h2 \<and>
      h_lastSeen h1 = h_lastSeen h2 \<and> h_ackSeq h1 = h_ackSeq h2"
    by (auto simp: addNextFromConn_def split: list.splits)
  then show ?thesis using checkOverlap_closed [OF c] by simp
next
  case False
  then have q: "q = False" by simp
  note hb = assms [unfolded q handleBytes_False]
  obtain h2 b2 s2 where o:
    "overlapExisting h s (Add s (int (length b))) b = Some (h2, b2, s2)"
    using hb by (cases "overlapExisting h s (Add s (int (length b))) b") auto
  obtain a3 h3 where c:
    "checkOverlap (a\<lparr>cacheLP := \<lparr>lp_bytes = b2, lp_seq = s2, lp_start = st, lp_end = en, lp_ci = ci\<rparr>\<rparr>)
       h2 False = Some (a3, h3)"
    using hb o
    by (cases "checkOverlap (a\<lparr>cacheLP := \<lparr>lp_bytes = b2, lp_seq = s2, lp_start = st,
          lp_end = en, lp_ci = ci\<rparr>\<rparr>) h2 False") auto
  have "(a1 = a3 \<or> a1 = a3\<lparr>ret := ret a3 @ [Live (cacheLP a3)]\<rparr>) \<and> h1 = h3"
    using hb o c by (auto split: if_splits)
  then have "connPool a1 = connPool a3 \<and> h1 = h3" by auto
  then show ?thesis
    using checkOverlap_closed [OF c] overlapExisting_closed [OF o] by simp
qed

lemma buildSG_closed:
  assumes "buildSG a h = Some (a1, h1, e, n)"
  shows "h_closed h1 = h_closed h \<and> h_dir h1 = h_dir h \<and> connPool a1 = connPool a"
  using assms
  by (auto simp: buildSG_def Let_def addPending_def addContiguous_def setStatsToSG_def
           split: list.splits if_splits prod.splits)

lemma cleanSG_pool: "cleanSG a h = Some (a1, h1) \<Longrightarrow> connPool a1 = connPool a"
  by (auto simp: cleanSG_def Let_def split: if_splits prod.splits option.splits)

lemma closeHalfConnection_other:
  "closeHalfConnection a conn d = (a1, conn1) \<Longrightarrow>
     getHalf conn1 (rev_dir d) = getHalf conn (rev_dir d) \<and>
     conn_key conn1 = conn_key conn \<and> stream conn1 = stream conn"
  by (auto simp: closeHalfConnection_def Let_def split: if_splits)

lemma sendToConnection_closed:
  assumes "sendToConnection a conn d = Some (a1, conn1, n)"
  shows "(h_closed (getHalf conn d) \<longrightarrow> h_closed (getHalf conn1 d)) \<and>
         getHalf conn1 (rev_dir d) = getHalf conn (rev_dir d) \<and>
         conn_key conn1 = conn_key conn \<and> stream conn1 = stream conn"
proof -
  obtain a' h' e n' where b: "buildSG a (getHalf conn d) = Some (a', h', e, n')"
    using assms by (auto simp: sendToConnection_def split: option.splits)
  obtain a'' h'' where c:
    "cleanSG (a'\<lparr>cacheSG := (cacheSG a')\<lparr>toKeep := KeepFrom (stream (setHalf conn d h'))
        (calls (setHalf conn d h')) (cacheSG a')\<rparr>\<rparr>) h' = Some (a'', h'')"
    using assms b by (auto simp: sendToConnection_def Let_def split: option.splits)
  show ?thesis
    using assms b c buildSG_closed [OF b] cleanSG_queue [OF c]
    by (auto simp: sendToConnection_def Let_def split: if_splits prod.splits
             dest: closeHalfConnection_half closeHalfConnection_other)
qed


lemma skipFlush_closed:
  assumes "skipFlush a conn d = Some (a1, conn1)"
  shows "(h_closed (getHalf conn d) \<longrightarrow> h_closed (getHalf conn1 d)) \<and>
         getHalf conn1 (rev_dir d) = getHalf conn (rev_dir d) \<and>
         conn_key conn1 = conn_key conn \<and> stream conn1 = stream conn"
proof (cases "h_queue (getHalf conn d)")
  case Nil
  then show ?thesis
    using assms closeHalfConnection_half [of a conn d a1 conn1]
      closeHalfConnection_other [of a conn d a1 conn1]
    by (simp add: skipFlush_def)
next
  case (Cons p ps)
  then obtain a2 conn2 n where s:
    "sendToConnection (a\<lparr>ret := [Page p]\<rparr>) (setHalf conn d ((getHalf conn d)\<lparr>h_queue := ps\<rparr>)) d
       = Some (a2, conn2, n)"
    and c1: "conn1 = conn2 \<or> conn1 = setHalf conn2 d ((getHalf conn2 d)\<lparr>h_nextSeq := n\<rparr>)"
    using assms
    by (auto simp: skipFlush_def addNextFromConn_def Let_def split: option.splits if_splits)
  show ?thesis
    using sendToConnection_closed [OF s] c1 by auto
qed

lemma closed_mono_dir:
  assumes "h_closed (getHalf conn d) \<longrightarrow> h_closed (getHalf conn1 d)"
    and "getHalf conn1 (rev_dir d) = getHalf conn (rev_dir d)"
    and "h_closed (getHalf conn d')"
  shows "h_closed (getHalf conn1 d')"
  using assms dir_cases [of d' d] by auto

lemma sequenceDecision_closed:
  "sequenceDecision h t st = (s, h1, q) \<Longrightarrow> h_closed h1 = h_closed h"
  by (auto simp: sequenceDecision_def Let_def split: if_splits)

lemma assembleAccepted_closed:
  assumes "assembleAccepted a conn d t ts = Some (a1, conn1)"
  shows "(h_closed (getHalf conn d) \<longrightarrow> h_closed (getHalf conn1 d)) \<and>
         getHalf conn1 (rev_dir d) = getHalf conn (rev_dir d) \<and>
         conn_key conn1 = conn_key conn \<and> stream conn1 = stream conn"
proof -
  define half2 where "half2 = (if ACK t then (getHalf conn d)\<lparr>h_ackSeq := uint (Ack t)\<rparr> else getHalf conn d)"
  obtain s h3 q where sd: "sequenceDecision half2 t (a_start a) = (s, h3, q)"
    by (cases "sequenceDecision half2 t (a_start a)") auto
  have c3: "h_closed h3 = h_closed (getHalf conn d)"
    using sequenceDecision_closed [OF sd] by (simp add: half2_def)
  obtain a3 h4 q1 where hb:
    "handleBytes a h3 (Payload t) s ts (SYN t) (RST t \<or> FIN t) q = Some (a3, h4, q1)"
    using assms sd
    by (auto simp: assembleAccepted_def Let_def half2_def split: option.splits)
  have c4: "h_closed h4 = h_closed (getHalf conn d)"
    using handleBytes_closed [OF hb] c3 by simp
  obtain a4 conn3 n where snd:
    "(if length (ret a3) > 0 then sendToConnection a3 (setHalf conn d h4) d
      else Some (a3, setHalf conn d h4, invalidSequence)) = Some (a4, conn3, n)"
    and fin: "conn1 = conn3 \<or> conn1 = setHalf conn3 d ((getHalf conn3 d)
                    \<lparr>h_nextSeq := (if FIN t then Add n 1 else n)\<rparr>)"
    using assms sd hb
    by (auto simp: assembleAccepted_def Let_def half2_def split: option.splits if_splits)
  have c5: "(h_closed (getHalf conn d) \<longrightarrow> h_closed (getHalf conn3 d)) \<and>
         getHalf conn3 (rev_dir d) = getHalf conn (rev_dir d) \<and>
         conn_key conn3 = conn_key conn \<and> stream conn3 = stream conn"
  proof (cases "length (ret a3) > 0")
    case True
    then have "sendToConnection a3 (setHalf conn d h4) d = Some (a4, conn3, n)"
      using snd by simp
    from sendToConnection_closed [OF this] c4 show ?thesis by simp
  next
    case False
    then show ?thesis using snd c4 by auto
  qed
  show ?thesis using c5 fin by auto
qed

lemma assembleLocked_closed:
  assumes "assembleLocked a conn d t ts = Some (a1, conn1)"
  shows "(h_closed (getHalf conn d) \<longrightarrow> h_closed (getHalf conn1 d)) \<and>
         getHalf conn1 (rev_dir d) = getHalf conn (rev_dir d) \<and>
         conn_key conn1 = conn_key conn \<and> stream conn1 = stream conn"
proof -
  define half1 where "half1 = (if h_lastSeen (getHalf conn d) < ts
      then (getHalf conn d)\<lparr>h_lastSeen := ts\<rparr> else getHalf conn d)"
  define conn0 where "conn0 = (setHalf conn d half1)
      \<lparr>calls := calls conn @ [CallAccept t ts (h_dir half1) (h_nextSeq half1)
          (h_nextSeq half1 = invalidSequence \<and> SYN t)]\<rparr>"
  have c0: "h_closed (getHalf conn0 d) = h_closed (getHalf conn d)"
    "getHalf conn0 (rev_dir d) = getHalf conn (rev_dir d)"
    "conn_key conn0 = conn_key conn" "stream conn0 = stream conn"
    by (simp_all add: conn0_def half1_def)
  have "conn1 = conn0 \<or> (\<exists>a2. assembleAccepted a2 conn0 d t ts = Some (a1, conn1))"
    using assms unfolding assembleLocked_def Let_def conn0_def half1_def
    by (auto split: prod.splits if_splits)
  then show ?thesis
    using c0 by (auto dest!: assembleAccepted_closed)
qed

lemma FlushAll_half_closed:
  "FlushAll_half a conn d = Some (a1, conn1) \<Longrightarrow>
     h_closed (getHalf conn1 d) \<and>
     getHalf conn1 (rev_dir d) = getHalf conn (rev_dir d) \<and>
     conn_key conn1 = conn_key conn \<and> stream conn1 = stream conn"
proof (induction a conn d rule: FlushAll_half.induct)
  case (1 a conn d)
  show ?case
  proof (cases "h_closed (getHalf conn d)")
    case True
    then show ?thesis using "1.prems" by (simp add: FlushAll_half.simps)
  next
    case False
    then obtain a2 conn2 where s: "skipFlush a conn d = Some (a2, conn2)"
      and r: "FlushAll_half a2 conn2 d = Some (a1, conn1)"
      using "1.prems" by (auto simp: FlushAll_half.simps [of a conn d] split: option.splits)
    from "1.IH" [OF False s refl r] skipFlush_closed [OF s]
    show ?thesis by simp
  qed
qed

lemma FlushAll_one_closed:
  assumes "FlushAll_one a conn d = Some (a1, conn1)"
  shows "h_closed (getHalf conn1 d) \<and>
     getHalf conn1 (rev_dir d) = getHalf conn (rev_dir d) \<and>
     conn_key conn1 = conn_key conn \<and> stream conn1 = stream conn"
proof -
  obtain a2 conn2 where f: "FlushAll_half a conn d = Some (a2, conn2)"
    using assms by (auto simp: FlushAll_one_def split: option.splits)
  have "a1 = a2 \<and> conn1 = conn2"
    using assms f FlushAll_half_closed [OF f] by (simp add: FlushAll_one_def)
  then show ?thesis using FlushAll_half_closed [OF f] by simp
qed

lemma rev_dir_simps [simp]:
  "rev_dir TCPDirServerToClient = TCPDirClientToServer"
  "rev_dir TCPDirClientToServer = TCPDirServerToClient"
  by (simp_all add: rev_dir_def)

lemma FlushAll_conn_closed:
  assumes "FlushAll_conn a conn = Some (a1, conn1)"
  shows "h_closed (s2c conn1) \<and> h_closed (c2s conn1) \<and>
     conn_key conn1 = conn_key conn \<and> stream conn1 = stream conn"
proof -
  obtain a2 conn2 where f1: "FlushAll_one a conn TCPDirServerToClient = Some (a2, conn2)"
    and f2: "FlushAll_one a2 conn2 TCPDirClientToServer = Some (a1, conn1)"
    using assms by (auto simp: FlushAll_conn_def split: option.splits)
  show ?thesis
    using FlushAll_one_closed [OF f1] FlushAll_one_closed [OF f2]
    by (simp add: getHalf_def)
qed

lemma FlushAll_conns_closed:
  "FlushAll_conns a conns = Some (a1, conns1) \<Longrightarrow>
     list_all2 (\<lambda>c c1. h_closed (s2c c1) \<and> h_closed (c2s c1) \<and> conn_key c1 = conn_key c)
       conns conns1"
proof (induction conns arbitrary: a conns1)
  case Nil
  then show ?case by simp
next
  case (Cons c cs)
  then obtain a2 c1 cs1 where f: "FlushAll_conn a c = Some (a2, c1)"
    and r: "FlushAll_conns a2 cs = Some (a1, cs1)" and e: "conns1 = c1 # cs1"
    by (auto split: option.splits)
  show ?case
    using FlushAll_conn_closed [OF f] Cons.IH [OF r] e by simp
qed

lemma buildSG_total: "ret a \<noteq> [] \<Longrightarrow> \<exists>r. buildSG a h = Some r"
  by (cases "ret a") (auto simp: buildSG_def Let_def split: prod.splits)

lemma buildSG_toKeep: "buildSG a h = Some (a1, h1, e, n) \<Longrightarrow> sg_all (cacheSG a1) = ret a1"
  by (auto simp: buildSG_def Let_def setStatsToSG_def split: list.splits prod.splits)

lemma cleanSG_total:
  "toKeep (cacheSG a) < 0 \<Longrightarrow> \<exists>r. cleanSG a h = Some r"
  by (auto simp: cleanSG_def Let_def split: prod.splits)

lemma sendToConnection_total:
  assumes "ret a \<noteq> []" and "\<forall>cs sg. KeepFrom (stream conn) cs sg < 0"
  shows "\<exists>r. sendToConnection a conn d = Some r"
proof -
  obtain a1 h1 e n where b: "buildSG a (getHalf conn d) = Some (a1, h1, e, n)"
    using buildSG_total [OF assms(1), of "getHalf conn d"] by auto
  have "\<exists>r. cleanSG (a1\<lparr>cacheSG := (cacheSG a1)\<lparr>toKeep := KeepFrom (stream (setHalf conn d h1))
        (calls (setHalf conn d h1)) (cacheSG a1)\<rparr>\<rparr>) h1 = Some r"
    using assms(2) by (intro cleanSG_total) simp
  then show ?thesis
    using b by (auto simp: sendToConnection_def Let_def split: prod.splits)
qed

lemma skipFlush_total:
  assumes "\<forall>cs sg. KeepFrom (stream conn) cs sg < 0"
  shows "\<exists>r. skipFlush a conn d = Some r"
proof (cases "h_queue (getHalf conn d)")
  case Nil
  then show ?thesis by (simp add: skipFlush_def)
next
  case (Cons p ps)
  have "\<exists>r. sendToConnection (a\<lparr>ret := [Page p]\<rparr>)
               (setHalf conn d ((getHalf conn d)\<lparr>h_queue := ps\<rparr>)) d = Some r"
    using assms by (intro sendToConnection_total) simp_all
  then show ?thesis
    using Cons by (auto simp: skipFlush_def addNextFromConn_def Let_def)
qed

lemma FlushAll_half_total:
  "\<forall>cs sg. KeepFrom (stream conn) cs sg < 0 \<Longrightarrow> \<exists>r. FlushAll_half a conn d = Some r"
proof (induction a conn d rule: FlushAll_half.induct)
  case (1 a conn d)
  show ?case
  proof (cases "h_closed (getHalf conn d)")
    case True
    then show ?thesis by (simp add: FlushAll_half.simps)
  next
    case False
    obtain a2 conn2 where s: "skipFlush a conn d = Some (a2, conn2)"
      using skipFlush_total [OF "1.prems", of a d] by auto
    have "stream conn2 = stream conn" using skipFlush_closed [OF s] by simp
    then have "\<exists>r. FlushAll_half a2 conn2 d = Some r"
      using "1.IH" [OF False s refl] "1.prems" by simp
    then show ?thesis using False s by (simp add: FlushAll_half.simps [of a conn d])
  qed
qed

lemma FlushAll_conn_total:
  assumes "\<forall>cs sg. KeepFrom (stream conn) cs sg < 0"
  shows "\<exists>r. FlushAll_conn a conn = Some r"
proof -
  obtain a1 conn1 where f1: "FlushAll_half a conn TCPDirServerToClient = Some (a1, conn1)"
    using FlushAll_half_total [OF assms] by fastforce
  have o1: "FlushAll_one a conn TCPDirServerToClient = Some (a1, conn1)"
    using f1 FlushAll_half_closed [OF f1] by (simp add: FlushAll_one_def)
  have "stream conn1 = stream conn" using FlushAll_half_closed [OF f1] by simp
  then obtain a2 conn2 where f2: "FlushAll_half a1 conn1 TCPDirClientToServer = Some (a2, conn2)"
    using FlushAll_half_total [of conn1 a1 TCPDirClientToServer] assms by fastforce
  have "FlushAll_one a1 conn1 TCPDirClientToServer = Some (a2, conn2)"
    using f2 FlushAll_half_closed [OF f2] by (simp add: FlushAll_one_def)
  then show ?thesis using o1 by (simp add: FlushAll_conn_def)
qed

lemma FlushAll_conns_total:
  "\<forall>c\<in>set conns. \<forall>cs sg. KeepFrom (stream c) cs sg < 0 \<Longrightarrow> \<exists>r. FlushAll_conns a conns = Some r"
proof (induction conns arbitrary: a)
  case Nil
  then show ?case by simp
next
  case (Cons c cs)
  obtain a1 c1 where f: "FlushAll_conn a c = Some (a1, c1)"
    using FlushAll_conn_total [of c a] Cons.prems by fastforce
  obtain r where "FlushAll_conns a1 cs = Some r"
    using Cons.IH [of a1] Cons.prems by auto
  then show ?case using f by (cases r) simp
qed

lemma flushClose_loop_closed:
  "flushClose_loop a conn d t f = Some (a1, conn1, f1, c1) \<Longrightarrow>
     (h_closed (getHalf conn d) \<longrightarrow> h_closed (getHalf conn1 d)) \<and>
     getHalf conn1 (rev_dir d) = getHalf conn (rev_dir d)"
proof (induction a conn d t f rule: flushClose_loop.induct)
  case (1 a conn d t flushed)
  show ?case
  proof (cases "h_queue (getHalf conn d)")
    case Nil
    then show ?thesis using "1.prems" by (simp add: flushClose_loop.simps)
  next
    case (Cons p ps)
    show ?thesis
    proof (cases "p_seen p < t")
      case False
      then show ?thesis using "1.prems" Cons by (simp add: flushClose_loop.simps)
    next
      case True
      then obtain a2 conn2 where s: "skipFlush a conn d = Some (a2, conn2)"
        using "1.prems" Cons by (auto simp: flushClose_loop.simps split: option.splits)
      note k = skipFlush_closed [OF s]
      show ?thesis
      proof (cases "h_closed (getHalf conn2 d)")
        case c: True
        then show ?thesis using "1.prems" Cons True s k by (simp add: flushClose_loop.simps)
      next
        case c: False
        then have r: "flushClose_loop a2 conn2 d t True = Some (a1, conn1, f1, c1)"
          using "1.prems" Cons True s by (simp add: flushClose_loop.simps)
        from "1.IH" [OF Cons True s refl c r] k show ?thesis by simp
      qed
    qed
  qed
qed

lemma flushClose_closed:
  assumes "flushClose a conn d t tc = Some (a1, conn1, f1, c1)"
  shows "(h_closed (getHalf conn d) \<longrightarrow> h_closed (getHalf conn1 d)) \<and>
     getHalf conn1 (rev_dir d) = getHalf conn (rev_dir d)"
proof (cases "h_closed (getHalf conn d)")
  case True
  then show ?thesis using assms by (simp add: flushClose_def)
next
  case False
  then obtain a2 conn2 f2 c2 where l: "flushClose_loop a conn d t False = Some (a2, conn2, f2, c2)"
    using assms by (auto simp: flushClose_def split: option.splits)
  note k = flushClose_loop_closed [OF l]
  show ?thesis
    using assms False l k
    by (auto simp: flushClose_def Let_def split: if_splits prod.splits
             dest: closeHalfConnection_other)
qed

lemma FlushWithOptions_conn_closed:
  assumes "FlushWithOptions_conn a conn t tc = Some (a1, conn1, f, c)"
    and "h_closed (getHalf conn d)"
  shows "h_closed (getHalf conn1 d)"
proof -
  obtain a2 conn2 f2 c2 where 1: "flushClose a conn TCPDirServerToClient t tc = Some (a2, conn2, f2, c2)"
    using assms by (auto simp: FlushWithOptions_conn_def split: option.splits)
  obtain a3 f3 c3 where 2: "flushClose a2 conn2 TCPDirClientToServer t tc = Some (a3, conn1, f3, c3)"
    using assms 1 by (auto simp: FlushWithOptions_conn_def Let_def split: option.splits)
  have "h_closed (getHalf conn2 d)"
    using flushClose_closed [OF 1] assms(2)
    by (intro closed_mono_dir [of conn TCPDirServerToClient conn2 d]) simp_all
  then show ?thesis
    using flushClose_closed [OF 2]
    by (intro closed_mono_dir [of conn2 TCPDirClientToServer conn1 d]) simp_all
qed

text \<open>
  C3, as the specification states it: a closed half connection has an empty queue and an
  empty saved list, and its stream has received \<open>ReassemblyComplete\<close>. This fails.
  After a SYN with sequence number 1000, two bytes at 1010 are queued behind a gap; the
  FIN at 1001 is delivered and closes the half. The half is closed, its queue still
  holds the page, and the stream has not been told of the completion, the other half
  being open.
\<close>

theorem closed_half_invariant_counterexample:
  "(case assembleAll example_assembler example_conn
           [(TCPDirClientToServer, (seg 1000 [])\<lparr>SYN := True\<rparr>, 1),
            (TCPDirClientToServer, seg 1010 ''XY'', 2),
            (TCPDirClientToServer, (seg 1001 [])\<lparr>FIN := True\<rparr>, 3)] of
      None \<Rightarrow> False
    | Some (a, c) \<Rightarrow>
        h_closed (c2s c) \<and> h_queue (c2s c) \<noteq> [] \<and> CallReassemblyComplete \<notin> set (calls c))"
  by code_simp

text \<open>
  C3, amended: \<open>closeHalfConnection\<close> sets the closed flag of the half it is given and
  leaves the other half as it is; the stream receives \<open>ReassemblyComplete\<close> in that
  call exactly when the other half is closed as well. A half that is closed stays closed
  through every later \<open>AssembleWithContext\<close>, \<open>skipFlush\<close>, \<open>closeHalfConnection\<close> and
  \<open>flushClose\<close> on either half of the connection, and through \<open>FlushAll\<close> and
  \<open>FlushWithOptions\<close>.
\<close>

theorem closeHalfConnection_closed_stays:
  "(\<forall>a1 conn1. closeHalfConnection a conn d = (a1, conn1) \<longrightarrow>
       h_closed (getHalf conn1 d) \<and>
       getHalf conn1 (rev_dir d) = getHalf conn (rev_dir d) \<and>
       calls conn1 = (if h_closed (getHalf conn (rev_dir d))
                      then calls conn @ [CallReassemblyComplete] else calls conn)) \<and>
   (h_closed (getHalf conn d) \<longrightarrow>
       (\<forall>a2 d2 t ts a3 conn3.
          AssembleWithContext a2 (Some (conn, d2)) t ts = Some (a3, Some conn3) \<longrightarrow>
          h_closed (getHalf conn3 d)) \<and>
       (\<forall>a2 d2 a3 conn3. skipFlush a2 conn d2 = Some (a3, conn3) \<longrightarrow> h_closed (getHalf conn3 d)) \<and>
       (\<forall>a2 d2 a3 conn3. closeHalfConnection a2 conn d2 = (a3, conn3) \<longrightarrow>
          h_closed (getHalf conn3 d)) \<and>
       (\<forall>a2 d2 t tc a3 conn3 f c.
          flushClose a2 conn d2 t tc = Some (a3, conn3, f, c) \<longrightarrow> h_closed (getHalf conn3 d)) \<and>
       (\<forall>a2 a3 conn3. FlushAll_conn a2 conn = Some (a3, conn3) \<longrightarrow> h_closed (getHalf conn3 d)) \<and>
       (\<forall>a2 t tc a3 conn3 f c.
          FlushWithOptions_conn a2 conn t tc = Some (a3, conn3, f, c) \<longrightarrow>
          h_closed (getHalf conn3 d)))"
proof -
  have 1: "h_closed (getHalf conn1 d) \<and>
       getHalf conn1 (rev_dir d) = getHalf conn (rev_dir d) \<and>
       calls conn1 = (if h_closed (getHalf conn (rev_dir d))
                      then calls conn @ [CallReassemblyComplete] else calls conn)"
    if c: "closeHalfConnection a conn d = (a1, conn1)" for a1 conn1
  proof -
    have "calls conn1 = (if h_closed (getHalf conn (rev_dir d))
                      then calls conn @ [CallReassemblyComplete] else calls conn)"
      using c
      by (cases d) (auto simp: closeHalfConnection_def Let_def getHalf_def setHalf_def
                         split: if_splits)
    then show ?thesis
      using closeHalfConnection_half [OF c] closeHalfConnection_other [OF c] by simp
  qed
  have 2: "h_closed (getHalf conn3 d)"
    if cl: "h_closed (getHalf conn d)"
      and r: "AssembleWithContext a2 (Some (conn, d2)) t ts = Some (a3, Some conn3)"
    for a2 d2 t ts a3 conn3
  proof -
    obtain a4 where "assembleLocked (a2\<lparr>ret := []\<rparr>) conn d2 t ts = Some (a4, conn3)"
      using r by (auto simp: AssembleWithContext_def)
    from assembleLocked_closed [OF this] cl show ?thesis
      by (intro closed_mono_dir [of conn d2 conn3 d]) simp_all
  qed
  have 3: "h_closed (getHalf conn3 d)"
    if cl: "h_closed (getHalf conn d)" and r: "skipFlush a2 conn d2 = Some (a3, conn3)"
    for a2 d2 a3 conn3
    using skipFlush_closed [OF r] cl
    by (intro closed_mono_dir [of conn d2 conn3 d]) simp_all
  have 4: "h_closed (getHalf conn3 d)"
    if cl: "h_closed (getHalf conn d)" and r: "closeHalfConnection a2 conn d2 = (a3, conn3)"
    for a2 d2 a3 conn3
    using closeHalfConnection_half [OF r] closeHalfConnection_other [OF r] cl
    by (intro closed_mono_dir [of conn d2 conn3 d]) simp_all
  have 5: "h_closed (getHalf conn3 d)"
    if r: "FlushAll_conn a2 conn = Some (a3, conn3)" for a2 a3 conn3
    using FlushAll_conn_closed [OF r] by (cases d) (simp_all add: getHalf_def)
  have 6: "h_closed (getHalf conn3 d)"
    if cl: "h_closed (getHalf conn d)"
      and r: "flushClose a2 conn d2 t tc = Some (a3, conn3, f, c)"
    for a2 d2 t tc a3 conn3 f c
    using flushClose_closed [OF r] cl
    by (intro closed_mono_dir [of conn d2 conn3 d]) simp_all
  have 7: "h_closed (getHalf conn3 d)"
    if cl: "h_closed (getHalf conn d)"
      and r: "FlushWithOptions_conn a2 conn t tc = Some (a3, conn3, f, c)"
    for a2 t tc a3 conn3 f c
    using FlushWithOptions_conn_closed [OF r cl] .
  have A: "\<forall>a1 conn1. closeHalfConnection a conn d = (a1, conn1) \<longrightarrow>
       h_closed (getHalf conn1 d) \<and>
       getHalf conn1 (rev_dir d) = getHalf conn (rev_dir d) \<and>
       calls conn1 = (if h_closed (getHalf conn (rev_dir d))
                      then calls conn @ [CallReassemblyComplete] else calls conn)"
    using 1 by blast
  have B2: "\<forall>a2 d2 t ts a3 conn3.
          AssembleWithContext a2 (Some (conn, d2)) t ts = Some (a3, Some conn3) \<longrightarrow>
          h_closed (getHalf conn3 d)"
    if cl: "h_closed (getHalf conn d)"
    using 2 [OF cl] by blast
  have B3: "\<forall>a2 d2 a3 conn3. skipFlush a2 conn d2 = Some (a3, conn3) \<longrightarrow>
          h_closed (getHalf conn3 d)"
    if cl: "h_closed (getHalf conn d)"
    using 3 [OF cl] by blast
  have B4: "\<forall>a2 d2 a3 conn3. closeHalfConnection a2 conn d2 = (a3, conn3) \<longrightarrow>
          h_closed (getHalf conn3 d)"
    if cl: "h_closed (getHalf conn d)"
    using 4 [OF cl] by blast
  have B5: "\<forall>a2 a3 conn3. FlushAll_conn a2 conn = Some (a3, conn3) \<longrightarrow>
          h_closed (getHalf conn3 d)"
    using 5 by blast
  have B6: "\<forall>a2 d2 t tc a3 conn3 f c.
          flushClose a2 conn d2 t tc = Some (a3, conn3, f, c) \<longrightarrow> h_closed (getHalf conn3 d)"
    if cl: "h_closed (getHalf conn d)"
    using 6 [OF cl] by blast
  have B7: "\<forall>a2 t tc a3 conn3 f c.
          FlushWithOptions_conn a2 conn t tc = Some (a3, conn3, f, c) \<longrightarrow>
          h_closed (getHalf conn3 d)"
    if cl: "h_closed (getHalf conn d)"
    using 7 [OF cl] by blast
  show ?thesis
    by (intro conjI impI A B2 B3 B4 B5 B6 B7) assumption+
qed

theorem closeHalfConnection_closed_stays_witness:
  "(case closeHalfConnection example_assembler example_conn TCPDirClientToServer of
      (a1, conn1) \<Rightarrow>
        h_closed (c2s conn1) \<and> s2c conn1 = s2c example_conn \<and> calls conn1 = [] \<and>
        (case AssembleWithContext a1 (Some (conn1, TCPDirClientToServer)) (seg 1000 ''AB'') 5 of
           Some (a2, Some conn2) \<Rightarrow> h_closed (c2s conn2) \<and> deliveries (calls conn2) = []
         | _ \<Rightarrow> False) \<and>
        (case closeHalfConnection a1 conn1 TCPDirServerToClient of
           (a2, conn2) \<Rightarrow>
             h_closed (c2s conn2) \<and> h_closed (s2c conn2) \<and>
             calls conn2 = [CallReassemblyComplete]))"
proof -
  have e: "(case closeHalfConnection example_assembler example_conn TCPDirClientToServer of
      (a1, conn1) \<Rightarrow>
        h_closed (c2s conn1) \<and> s2c conn1 = s2c example_conn \<and> calls conn1 = [] \<and>
        (case AssembleWithContext a1 (Some (conn1, TCPDirClientToServer)) (seg 1000 ''AB'') 5 of
           Some (a2, Some conn2) \<Rightarrow> h_closed (c2s conn2) \<and> deliveries (calls conn2) = []
         | _ \<Rightarrow> False) \<and>
        (case closeHalfConnection a1 conn1 TCPDirServerToClient of
           (a2, conn2) \<Rightarrow>
             h_closed (c2s conn2) \<and> h_closed (s2c conn2) \<and>
             calls conn2 = [CallReassemblyComplete]))"
    by code_simp
  show ?thesis
    using closeHalfConnection_closed_stays
      [of example_assembler example_conn TCPDirClientToServer] e
    by simp
qed

lemma Difference_mod: "Difference s (Add c n) = Difference s (c + n)"
  by (simp add: Difference_def Add_def mod_diff_left_eq)

lemma case4_in_range:
  assumes "Difference e cs < 0" and "Difference e (Add cs (int n)) > 0"
  shows "0 \<le> - Difference e cs \<and> - Difference e cs < int n"
proof -
  define u where "u = (cs - e) mod 4294967296"
  have u: "0 \<le> u" "u < 4294967296" by (simp_all add: u_def)
  have d: "Difference e cs = (if 2147483648 \<le> u then u - 4294967296 else u)"
    by (simp add: Difference_def u_def Let_def)
  have u2: "2147483648 \<le> u" using assms(1) d u by (auto split: if_splits)
  have v: "(cs + int n - e) mod 4294967296 = (u + int n) mod 4294967296"
  proof -
    have "(cs + int n - e) mod 4294967296 = ((cs - e) + int n) mod 4294967296"
      by (simp add: algebra_simps)
    also have "\<dots> = ((cs - e) mod 4294967296 + int n) mod 4294967296"
      by (simp add: mod_add_left_eq)
    finally show ?thesis by (simp add: u_def)
  qed
  have "Difference e (cs + int n) =
      (if 2147483648 \<le> (u + int n) mod 4294967296 then (u + int n) mod 4294967296 - 4294967296
       else (u + int n) mod 4294967296)"
    by (simp add: Difference_def Let_def v)
  then have p: "0 < (u + int n) mod 4294967296" "(u + int n) mod 4294967296 < 2147483648"
    using assms(2) by (auto simp: Difference_mod split: if_splits)
  have "4294967296 - u < int n"
  proof (rule ccontr)
    assume "\<not> 4294967296 - u < int n"
    then have "u + int n \<le> 4294967296" by simp
    then consider "u + int n = 4294967296" | "u + int n < 4294967296" by linarith
    then show False
    proof cases
      case 1
      then show ?thesis using p by simp
    next
      case 2
      then have "(u + int n) mod 4294967296 = u + int n" using u by simp
      then show ?thesis using p u2 by simp
    qed
  qed
  then show ?thesis using d u2 u by simp
qed

lemma checkOverlap_step_case4:
  assumes "Difference start (Add (p_seq cur) (int (length (p_bytes cur)))) > 0"
    and "Difference start (p_seq cur) > 0"
    and "Difference endSeq (p_seq cur) < 0"
    and "Difference endSeq (Add (p_seq cur) (int (length (p_bytes cur)))) > 0"
  shows "checkOverlap_step start endSeq cur bytes half c =
           Some (Continue
                  [cur\<lparr>p_bytes := drop (nat (- Difference endSeq (p_seq cur))) (p_bytes cur),
                        p_seq := Add (p_seq cur) (- Difference endSeq (p_seq cur))\<rparr>]
                  bytes half c)"
  using assms case4_in_range [OF assms(3) assms(4)]
  by (simp add: checkOverlap_step_def Let_def slice_from_def)


lemma concat_split_bytes: "concat (split_bytes n bs) = bs"
proof (induction n bs rule: split_bytes.induct)
  case (1 n bs)
  show ?case
  proof (cases "n = 0 \<or> length bs \<le> n")
    case True
    then show ?thesis by (simp add: split_bytes.simps [of n bs])
  next
    case False
    then show ?thesis using "1.IH" by (simp add: split_bytes.simps [of n bs])
  qed
qed

lemma mk_pages_bytes: "map p_bytes (mk_pages ts st en origin s cs) = cs"
  by (induction cs arbitrary: st origin s) simp_all

lemma Add_back:
  assumes "0 \<le> e" and "e < 4294967296"
  shows "Add cs (- Difference e cs) = e"
proof -
  define u where "u = (cs - e) mod 4294967296"
  have "Difference e cs = u \<or> Difference e cs = u - 4294967296"
    by (auto simp: Difference_def Let_def u_def)
  then have "(cs + - Difference e cs) mod 4294967296 = (cs - u) mod 4294967296"
  proof
    assume "Difference e cs = u"
    then show ?thesis by simp
  next
    assume "Difference e cs = u - 4294967296"
    then have "cs + - Difference e cs = (cs - u) + 4294967296" by simp
    then show ?thesis by (metis mod_add_self2)
  qed
  also have "\<dots> = (cs - (cs - e)) mod 4294967296"
    unfolding u_def by (simp add: mod_diff_right_eq)
  also have "\<dots> = e" using assms by simp
  finally show ?thesis by (simp add: Add_def)
qed

lemma Add_range: "0 \<le> Add s n \<and> Add s n < 4294967296"
  by (simp add: Add_def)

text \<open>
  C1, amended: when the new range begins before a queued page \<open>cur\<close> and ends inside it
  (\<open>start < cs\<close> and \<open>cs < end < ce\<close>, as sequence differences, the range also
  beginning before the end of \<open>cur\<close>), the round of the loop for \<open>cur\<close> cuts the head
  of the queued page: \<open>cur\<close> loses its first \<open>end - cs\<close> bytes and its sequence number
  becomes \<open>end\<close>, and the loop goes on to the page before with the new bytes untouched.
  When \<open>cur\<close> is the only page of the queue, the queue afterwards is the pages of the
  whole new range followed by what is left of \<open>cur\<close>; no overlap is counted and all the
  new bytes count as queued.
\<close>

theorem checkOverlap_cuts_queued_head:
  assumes "start = lp_seq (cacheLP a)"
    and "bytes = lp_bytes (cacheLP a)"
    and "endSeq = Add start (int (length bytes))"
    and "Difference start (Add (p_seq cur) (int (length (p_bytes cur)))) > 0"
    and "Difference start (p_seq cur) > 0"
    and "Difference endSeq (p_seq cur) < 0"
    and "Difference endSeq (Add (p_seq cur) (int (length (p_bytes cur)))) > 0"
  shows "checkOverlap_loop start endSeq (cur # left) right bytes half c =
           checkOverlap_loop start endSeq left
             (cur\<lparr>p_bytes := drop (nat (- Difference endSeq (p_seq cur))) (p_bytes cur),
                  p_seq := endSeq\<rparr> # right) bytes half c \<and>
         (h_queue half = [cur] \<longrightarrow>
            (\<exists>a1 half1 ps.
               checkOverlap a half True = Some (a1, half1) \<and>
               h_queue half1 =
                 ps @ [cur\<lparr>p_bytes := drop (nat (- Difference endSeq (p_seq cur))) (p_bytes cur),
                           p_seq := endSeq\<rparr>] \<and>
               concat (map p_bytes ps) = bytes \<and>
               lp_bytes (cacheLP a1) = bytes \<and>
               overlapBytes half1 = overlapBytes half \<and>
               queuedBytes half1 = queuedBytes half + int (length bytes)))"
proof -
  let ?cur = "cur\<lparr>p_bytes := drop (nat (- Difference endSeq (p_seq cur))) (p_bytes cur),
                  p_seq := endSeq\<rparr>"
  have e: "Add (p_seq cur) (- Difference endSeq (p_seq cur)) = endSeq"
    using Add_range [of start "int (length bytes)"] assms(3) by (intro Add_back) simp_all
  have st: "checkOverlap_step start endSeq cur bytes half c = Some (Continue [?cur] bytes half c)"
    for half c
    using checkOverlap_step_case4 [OF assms(4-7)] e by simp
  have 1: "checkOverlap_loop start endSeq (cur # left) right bytes half c =
           checkOverlap_loop start endSeq left (?cur # right) bytes half c"
    by (simp add: st)
  have ne: "bytes \<noteq> []"
  proof
    assume "bytes = []"
    then have "Difference endSeq (p_seq cur) = Difference start (p_seq cur)"
      using assms(3) by (simp add: Difference_def Add_def mod_diff_right_eq)
    then show False using assms(5,6) by simp
  qed
  have 2: "\<exists>a1 half1 ps.
               checkOverlap a half True = Some (a1, half1) \<and>
               h_queue half1 = ps @ [?cur] \<and>
               concat (map p_bytes ps) = bytes \<and>
               lp_bytes (cacheLP a1) = bytes \<and>
               overlapBytes half1 = overlapBytes half \<and>
               queuedBytes half1 = queuedBytes half + int (length bytes)"
    if q: "h_queue half = [cur]"
    using q ne assms(1-3) st
    by (simp add: checkOverlap_def Let_def lp_convertToPages_def slice_from_def
          mk_pages_bytes concat_split_bytes)
  show ?thesis using 1 2 by blast
qed

text \<open>
  C1, as the specification states it: the tail of the new range is truncated to \<open>cs\<close>
  and the queued page keeps all its bytes. This fails. The new range 1008 to 1012
  reaches two bytes into the page queued at 1010: afterwards the queue holds all four
  new bytes at 1008 and only the last two bytes of the old page, now at 1012.
\<close>

theorem checkOverlap_truncates_new_counterexample:
  "(case checkOverlap overlap_assembler overlap_half True of
      None \<Rightarrow> False
    | Some (a1, half1) \<Rightarrow>
        map (\<lambda>p. (p_seq p, p_bytes p)) (h_queue overlap_half) = [(1010, ''WXYZ'')] \<and>
        map (\<lambda>p. (p_seq p, p_bytes p)) (h_queue half1) = [(1008, ''abcd''), (1012, ''YZ'')] \<and>
        map (\<lambda>p. (p_seq p, p_bytes p)) (h_queue half1) \<noteq> [(1008, ''ab''), (1010, ''WXYZ'')])"
  by code_simp

theorem checkOverlap_cuts_queued_head_witness:
  "(case checkOverlap overlap_assembler overlap_half True of
      None \<Rightarrow> False
    | Some (a1, half1) \<Rightarrow>
        h_queue half1 =
          [\<lparr>p_bytes = ''abcd'', p_seq = 1008, p_seen = 3, p_start = False, p_end = False,
            p_isPacket = True\<rparr>,
           \<lparr>p_bytes = ''YZ'', p_seq = 1012, p_seen = 2, p_start = False, p_end = False,
            p_isPacket = True\<rparr>] \<and>
        lp_bytes (cacheLP a1) = ''abcd'' \<and> overlapBytes half1 = 0 \<and> queuedBytes half1 = 4)"
proof -
  have e: "(case checkOverlap overlap_assembler overlap_half True of
      None \<Rightarrow> False
    | Some (a1, half1) \<Rightarrow>
        h_queue half1 =
          [\<lparr>p_bytes = ''abcd'', p_seq = 1008, p_seen = 3, p_start = False, p_end = False,
            p_isPacket = True\<rparr>,
           \<lparr>p_bytes = ''YZ'', p_seq = 1012, p_seen = 2, p_start = False, p_end = False,
            p_isPacket = True\<rparr>] \<and>
        lp_bytes (cacheLP a1) = ''abcd'' \<and> overlapBytes half1 = 0 \<and> queuedBytes half1 = 4)"
    by code_simp
  have h: "Difference 1008 (Add 1010 (int (length ''WXYZ''))) > 0 \<and> Difference 1008 1010 > 0 \<and>
        Difference (Add 1008 (int (length ''abcd''))) 1010 < 0 \<and>
        Difference (Add 1008 (int (length ''abcd''))) (Add 1010 (int (length ''WXYZ''))) > 0"
    by (simp add: Difference_def Add_def)
  show ?thesis
    using checkOverlap_cuts_queued_head [of 1008 overlap_assembler "''abcd''"
        "Add 1008 (int (length ''abcd''))"
        "\<lparr>p_bytes = ''WXYZ'', p_seq = 1010, p_seen = 2, p_start = False, p_end = False,
          p_isPacket = True\<rparr>" "[]" "[]" overlap_half "pc overlap_assembler"] h e
    by simp
qed



lemma pages_len_simps [simp]:
  "pages_len [] = 0"
  "pages_len (p # ps) = int (length (p_bytes p)) + pages_len ps"
  "pages_len (ps @ qs) = pages_len ps + pages_len qs"
  by (simp_all add: pages_len_def)


lemma Add_Add: "Add (Add s x) y = Add s (x + y)"
  by (simp add: Add_def mod_add_left_eq add.assoc)

lemma Add_zero: "0 \<le> s \<Longrightarrow> s < 4294967296 \<Longrightarrow> Add s 0 = s"
  by (simp add: Add_def)

lemma addContiguous_loop_result:
  "addContiguous_loop q s r = (q1, s1, r1) \<Longrightarrow> 0 \<le> s \<Longrightarrow> s < 4294967296 \<Longrightarrow>
     \<exists>post. q = post @ q1 \<and> r1 = r @ map Page post \<and> s1 = Add s (pages_len post)"
proof (induction q s r rule: addContiguous_loop.induct)
  case (1 lastSeq r)
  then show ?case by (simp add: Add_zero)
next
  case (2 p ps lastSeq r)
  show ?case
  proof (cases "Difference lastSeq (p_seq p) = 0")
    case True
    then have l: "addContiguous_loop ps (Add lastSeq (int (length (p_bytes p)))) (r @ [Page p])
        = (q1, s1, r1)"
      using "2.prems" by simp
    from "2.IH" [OF True l] Add_range [of lastSeq "int (length (p_bytes p))"]
    obtain post where "ps = post @ q1" "r1 = (r @ [Page p]) @ map Page post"
      "s1 = Add (Add lastSeq (int (length (p_bytes p)))) (pages_len post)"
      by auto
    then have "p # ps = (p # post) @ q1 \<and> r1 = r @ map Page (p # post) \<and>
        s1 = Add lastSeq (pages_len (p # post))"
      by (simp add: Add_Add)
    then show ?thesis by blast
  next
    case False
    then have "q1 = p # ps \<and> s1 = lastSeq \<and> r1 = r" using "2.prems" by simp
    then have "p # ps = [] @ q1 \<and> r1 = r @ map Page [] \<and> s1 = Add lastSeq (pages_len [])"
      using "2.prems" by (simp add: Add_zero)
    then show ?thesis by blast
  qed
qed

lemma addContiguous_result:
  assumes "addContiguous a h s = (a1, h1, s1)" and "0 \<le> s" and "s < 4294967296"
  shows "\<exists>post. h_queue h = post @ h_queue h1 \<and> ret a1 = ret a @ map Page post \<and>
           s1 = Add s (pages_len post)"
proof (cases "h_queue h")
  case Nil
  then have "h_queue h = [] @ h_queue h1 \<and> ret a1 = ret a @ map Page [] \<and>
           s1 = Add s (pages_len [])"
    using assms by (simp add: addContiguous_def Add_zero)
  then show ?thesis by blast
next
  case (Cons p ps)
  have ni: "s \<noteq> invalidSequence" using assms(2) by (simp add: invalidSequence_def)
  obtain q2 s2 r2 where l: "addContiguous_loop (h_queue h) s (ret a) = (q2, s2, r2)"
    by (cases "addContiguous_loop (h_queue h) s (ret a)") auto
  have "h_queue h1 = q2 \<and> ret a1 = r2 \<and> s1 = s2"
    using assms(1) Cons l ni
    by (auto simp: addContiguous_def Let_def simp del: addContiguous_loop.simps)
  then show ?thesis using addContiguous_loop_result [OF l assms(2,3)] by auto
qed

lemma addPending_result:
  assumes "addPending a h f = (a1, h1, sv)"
  shows "\<exists>pre. ret a1 = map Page pre @ ret a \<and> sv = pages_len pre \<and> h_queue h1 = h_queue h"
proof (cases "h_saved h")
  case Nil
  then have "ret a1 = map Page [] @ ret a \<and> sv = pages_len [] \<and> h_queue h1 = h_queue h"
    using assms by (simp add: addPending_def)
  then show ?thesis by blast
next
  case (Cons p ps)
  show ?thesis
  proof (cases "Add (p_seq p) (pages_len (h_saved h)) \<noteq> f")
    case True
    then have "ret a1 = map Page [] @ ret a \<and> sv = pages_len [] \<and> h_queue h1 = h_queue h"
      using assms Cons by (auto simp: addPending_def Let_def pages_len_def)
    then show ?thesis by blast
  next
    case False
    then have "ret a1 = map Page (h_saved h) @ ret a \<and> sv = pages_len (h_saved h) \<and>
        h_queue h1 = h_queue h"
      using assms Cons by (auto simp: addPending_def Let_def pages_len_def)
    then show ?thesis by blast
  qed
qed

lemma sg_payload_length:
  "int (length (concat (map getBytes (map Page pre @ [r0] @ map Page post)))) =
     pages_len pre + c_length r0 + pages_len post"
proof -
  have "int (length (concat (map getBytes (map Page ps)))) = pages_len ps" for ps
    by (induction ps) simp_all
  then show ?thesis by (simp add: c_length_def)
qed

lemma addPending_nextSeq:
  "addPending a h f = (a1, h1, sv) \<Longrightarrow> h_nextSeq h1 = h_nextSeq h"
  by (auto simp: addPending_def Let_def split: list.splits if_splits)

lemma addContiguous_nextSeq:
  "addContiguous a h s = (a1, h1, s1) \<Longrightarrow> h_nextSeq h1 = h_nextSeq h"
  by (auto simp: addContiguous_def Let_def simp del: addContiguous_loop.simps
           split: list.splits prod.splits)

lemma buildSG_unfold:
  assumes "buildSG a h = Some (a1, h1, e, n)" and "ret a = r0 # rs"
    and "addPending a h (getSeq r0) = (a', h', sv)"
    and "addContiguous a' h' (Add (getSeq r0) (c_length r0)) = (a'', h'', n'')"
  shows "sg_all (cacheSG a1) = ret a'' \<and> sg_saved (cacheSG a1) = sv \<and> n = n'' \<and>
        h_queue h1 = h_queue h'' \<and> e = isEnd (last (ret a'')) \<and> h_nextSeq h1 = h_nextSeq h''"
  using assms by (auto simp: buildSG_def Let_def setStatsToSG_def)


lemma buildSG_result:
  assumes "buildSG a h = Some (a1, h1, e, n)" and "ret a = [r0]"
  shows "\<exists>pre post.
           sg_all (cacheSG a1) = map Page pre @ [r0] @ map Page post \<and>
           sg_saved (cacheSG a1) = pages_len pre \<and>
           n = Add (getSeq r0) (c_length r0 + pages_len post) \<and>
           h_queue h = post @ h_queue h1 \<and>
           e = isEnd (last (r0 # map Page post)) \<and>
           h_nextSeq h1 = h_nextSeq h"
proof -
  obtain a' h' sv where p: "addPending a h (getSeq r0) = (a', h', sv)"
    by (cases "addPending a h (getSeq r0)") auto
  from addPending_result [OF p]
  obtain pre where pre: "ret a' = map Page pre @ ret a" "sv = pages_len pre" "h_queue h' = h_queue h"
    by blast
  obtain a'' h'' n'' where c: "addContiguous a' h' (Add (getSeq r0) (c_length r0)) = (a'', h'', n'')"
    by (cases "addContiguous a' h' (Add (getSeq r0) (c_length r0))") auto
  have rg: "0 \<le> Add (getSeq r0) (c_length r0)" "Add (getSeq r0) (c_length r0) < 4294967296"
    using Add_range [of "getSeq r0" "c_length r0"] by simp_all
  from addContiguous_result [OF c rg]
  obtain post where post: "h_queue h' = post @ h_queue h''" "ret a'' = ret a' @ map Page post"
    "n'' = Add (Add (getSeq r0) (c_length r0)) (pages_len post)"
    by blast
  note r = buildSG_unfold [OF assms(1) assms(2) p c]
  have 1: "sg_all (cacheSG a1) = map Page pre @ [r0] @ map Page post"
    using r post(2) pre(1) assms(2) by simp
  have 2: "sg_saved (cacheSG a1) = pages_len pre" using r pre(2) by simp
  have 3: "n = Add (getSeq r0) (c_length r0 + pages_len post)"
    using r post(3) by (simp add: Add_Add)
  have 4: "h_queue h = post @ h_queue h1" using r post(1) pre(3) by simp
  have "last (ret a'') = last (r0 # map Page post)"
    using post(2) pre(1) assms(2) by simp
  then have 5: "e = isEnd (last (r0 # map Page post))" using r by simp
  have 6: "h_nextSeq h1 = h_nextSeq h"
    using r addPending_nextSeq [OF p] addContiguous_nextSeq [OF c] by simp
  show ?thesis using 1 2 3 4 5 6 by blast
qed




lemma closeHalfConnection_calls:
  "closeHalfConnection a conn d = (a1, conn1) \<Longrightarrow>
     (\<exists>rest. calls conn1 = calls conn @ rest \<and> set rest \<subseteq> {CallReassemblyComplete}) \<and>
     h_nextSeq (getHalf conn1 d) = h_nextSeq (getHalf conn d)"
  by (auto simp: closeHalfConnection_def Let_def split: if_splits)





























lemma delivered_append: "delivered (xs @ ys) = delivered xs @ delivered ys"
  by (induction xs rule: delivered.induct) simp_all

lemma delivered_complete:
  "set rest \<subseteq> {CallReassemblyComplete} \<Longrightarrow> delivered rest = []"
  by (induction rest rule: delivered.induct) auto

lemma FlushAll_half_mechanism:
  "FlushAll_half a conn d = Some (a1, conn1) \<Longrightarrow>
     \<exists>n. skipFlushed_until_closed n a conn d a1 conn1"
proof (induction a conn d rule: FlushAll_half.induct)
  case (1 a conn d)
  show ?case
  proof (cases "h_closed (getHalf conn d)")
    case True
    then have "a1 = a \<and> conn1 = conn" using "1.prems" by (simp add: FlushAll_half.simps)
    then have "skipFlushed_until_closed 0 a conn d a1 conn1"
      using True by (simp add: skipFlushed_until_closed_def)
    then show ?thesis by blast
  next
    case False
    then obtain a2 conn2 where s: "skipFlush a conn d = Some (a2, conn2)"
      using "1.prems" by (auto simp: FlushAll_half.simps split: option.splits)
    then have r: "FlushAll_half a2 conn2 d = Some (a1, conn1)"
      using "1.prems" False by (simp add: FlushAll_half.simps)
    from "1.IH" [OF False s refl r]
    obtain n where n: "skipFlushed_until_closed n a2 conn2 d a1 conn1" by blast
    have "skipFlushed_until_closed (Suc n) a conn d a1 conn1"
      unfolding skipFlushed_until_closed_def
    proof (intro conjI allI impI)
      show "skipFlush_times (Suc n) a conn d = Some (a1, conn1)"
        using n s by (simp add: skipFlushed_until_closed_def)
      show "h_closed (getHalf conn1 d)" using n by (simp add: skipFlushed_until_closed_def)
      fix k assume k: "k < Suc n"
      show "case skipFlush_times k a conn d of None \<Rightarrow> False
            | Some (ak, ck) \<Rightarrow> \<not> h_closed (getHalf ck d)"
      proof (cases k)
        case 0
        then show ?thesis using False by simp
      next
        case (Suc j)
        then have "j < n" using k by simp
        then have "case skipFlush_times j a2 conn2 d of None \<Rightarrow> False
            | Some (ak, ck) \<Rightarrow> \<not> h_closed (getHalf ck d)"
          using n by (simp add: skipFlushed_until_closed_def)
        then show ?thesis using Suc s by simp
      qed
    qed
    then show ?thesis by blast
  qed
qed

lemma FlushAll_one_half:
  assumes "FlushAll_one a conn d = Some (a1, conn1)"
  shows "FlushAll_half a conn d = Some (a1, conn1)"
proof -
  obtain a2 conn2 where h: "FlushAll_half a conn d = Some (a2, conn2)"
    using assms by (auto simp: FlushAll_one_def split: option.splits)
  have "h_closed (getHalf conn2 d)" using FlushAll_half_closed [OF h] by simp
  then show ?thesis using assms h by (simp add: FlushAll_one_def)
qed

lemma last_map_Page: "isEnd (last (Page p # map Page post)) = p_end (last (p # post))"
proof -
  have "last (Page p # map Page post) = Page (last (p # post))"
    using last_map [of "p # post" Page] by simp
  then show ?thesis by simp
qed

lemma sendToConnection_drain:
  assumes snd: "sendToConnection a conn d = Some (a4, conn3, n)" and ra: "ret a = [Page p]"
  shows "\<exists>sg rest post.
           calls conn3 = calls conn @ CallReassembledSG sg # rest \<and>
           set rest \<subseteq> {CallReassemblyComplete} \<and>
           Page p \<in> set (sg_all sg) \<and> (\<forall>q\<in>set post. Page q \<in> set (sg_all sg)) \<and>
           h_queue (getHalf conn d) = post @ h_queue (getHalf conn3 d) \<and>
           (h_closed (getHalf conn3 d) \<longrightarrow>
              h_closed (getHalf conn d) \<or> p_end (last (p # post)))"
proof -
  obtain a1 h1 e n1 where b: "buildSG a (getHalf conn d) = Some (a1, h1, e, n1)"
    using snd by (auto simp: sendToConnection_def split: option.splits)
  define conn2 where "conn2 = (setHalf conn d h1)\<lparr>calls := calls conn @ [CallReassembledSG (cacheSG a1)]\<rparr>"
  obtain a2 h2 where c:
    "cleanSG (a1\<lparr>cacheSG := (cacheSG a1)\<lparr>toKeep := KeepFrom (stream (setHalf conn d h1))
        (calls (setHalf conn d h1)) (cacheSG a1)\<rparr>\<rparr>) h1 = Some (a2, h2)"
    using snd b by (auto simp: sendToConnection_def Let_def split: option.splits)
  define conn2' where "conn2' = setHalf conn2 d h2"
  have f: "(\<not> e \<and> conn3 = conn2') \<or> (e \<and> (\<exists>a5. closeHalfConnection a2 conn2' d = (a5, conn3)))"
    using snd b c unfolding conn2'_def conn2_def
    by (auto simp: sendToConnection_def Let_def split: prod.splits if_splits)
  from buildSG_result [OF b ra]
  obtain pre post where bs:
    "sg_all (cacheSG a1) = map Page pre @ [Page p] @ map Page post"
    "h_queue (getHalf conn d) = post @ h_queue h1"
    "e = isEnd (last (Page p # map Page post))"
    by blast
  have e: "e = p_end (last (p # post))" using bs(3) last_map_Page by simp
  have q2: "h_queue h2 = h_queue h1" "h_closed h2 = h_closed (getHalf conn d)"
    using cleanSG_queue [OF c] buildSG_closed [OF b] by simp_all
  have c2: "calls conn2' = calls conn @ [CallReassembledSG (cacheSG a1)]"
    "h_queue (getHalf conn2' d) = h_queue h1" "h_closed (getHalf conn2' d) = h_closed (getHalf conn d)"
    using q2 by (simp_all add: conn2'_def conn2_def)
  have m: "Page p \<in> set (sg_all (cacheSG a1))" "\<forall>q\<in>set post. Page q \<in> set (sg_all (cacheSG a1))"
    using bs(1) by auto
  have "\<exists>rest. calls conn3 = calls conn @ CallReassembledSG (cacheSG a1) # rest \<and>
          set rest \<subseteq> {CallReassemblyComplete} \<and>
          h_queue (getHalf conn3 d) = h_queue h1 \<and>
          (h_closed (getHalf conn3 d) \<longrightarrow> h_closed (getHalf conn d) \<or> e)"
    using f
  proof
    assume "\<not> e \<and> conn3 = conn2'"
    then show ?thesis using c2 by simp
  next
    assume "e \<and> (\<exists>a5. closeHalfConnection a2 conn2' d = (a5, conn3))"
    then obtain a5 where e: "e" and cl: "closeHalfConnection a2 conn2' d = (a5, conn3)" by blast
    from closeHalfConnection_calls [OF cl] closeHalfConnection_half [OF cl] c2 e
    show ?thesis by auto
  qed
  then obtain rest where r: "calls conn3 = calls conn @ CallReassembledSG (cacheSG a1) # rest"
    "set rest \<subseteq> {CallReassemblyComplete}" "h_queue (getHalf conn3 d) = h_queue h1"
    "h_closed (getHalf conn3 d) \<longrightarrow> h_closed (getHalf conn d) \<or> e"
    by blast
  have "calls conn3 = calls conn @ CallReassembledSG (cacheSG a1) # rest \<and>
           set rest \<subseteq> {CallReassemblyComplete} \<and>
           Page p \<in> set (sg_all (cacheSG a1)) \<and> (\<forall>q\<in>set post. Page q \<in> set (sg_all (cacheSG a1))) \<and>
           h_queue (getHalf conn d) = post @ h_queue (getHalf conn3 d) \<and>
           (h_closed (getHalf conn3 d) \<longrightarrow>
              h_closed (getHalf conn d) \<or> p_end (last (p # post)))"
    using r m bs(2) e by simp
  then show ?thesis by blast
qed

lemma skipFlush_drain:
  assumes s: "skipFlush a conn d = Some (a1, conn1)"
    and q: "h_queue (getHalf conn d) = p # ps"
  shows "\<exists>new post.
           calls conn1 = calls conn @ new \<and>
           Page p \<in> set (delivered new) \<and> (\<forall>q\<in>set post. Page q \<in> set (delivered new)) \<and>
           ps = post @ h_queue (getHalf conn1 d) \<and>
           (h_closed (getHalf conn1 d) \<longrightarrow>
              h_closed (getHalf conn d) \<or> p_end (last (p # post)))"
proof -
  define conn0 where "conn0 = setHalf conn d ((getHalf conn d)\<lparr>h_queue := ps\<rparr>)"
  obtain a2 conn2 n where snd:
    "sendToConnection (a\<lparr>ret := [Page p]\<rparr>) conn0 d = Some (a2, conn2, n)"
    and c1: "h_queue (getHalf conn1 d) = h_queue (getHalf conn2 d)"
      "h_closed (getHalf conn1 d) = h_closed (getHalf conn2 d)" "calls conn1 = calls conn2"
    using s q unfolding conn0_def
    by (auto simp: skipFlush_def addNextFromConn_def Let_def split: option.splits if_splits)
  have ra: "ret (a\<lparr>ret := [Page p]\<rparr>) = [Page p]" by simp
  from sendToConnection_drain [OF snd ra]
  obtain sg rest post where r:
    "calls conn2 = calls conn0 @ CallReassembledSG sg # rest"
    "set rest \<subseteq> {CallReassemblyComplete}"
    "Page p \<in> set (sg_all sg)" "\<forall>q\<in>set post. Page q \<in> set (sg_all sg)"
    "h_queue (getHalf conn0 d) = post @ h_queue (getHalf conn2 d)"
    "h_closed (getHalf conn2 d) \<longrightarrow> h_closed (getHalf conn0 d) \<or> p_end (last (p # post))"
    by blast
  have c0: "calls conn0 = calls conn" "h_queue (getHalf conn0 d) = ps"
    "h_closed (getHalf conn0 d) = h_closed (getHalf conn d)"
    by (simp_all add: conn0_def)
  have "calls conn1 = calls conn @ (CallReassembledSG sg # rest) \<and>
           Page p \<in> set (delivered (CallReassembledSG sg # rest)) \<and>
           (\<forall>q\<in>set post. Page q \<in> set (delivered (CallReassembledSG sg # rest))) \<and>
           ps = post @ h_queue (getHalf conn1 d) \<and>
           (h_closed (getHalf conn1 d) \<longrightarrow>
              h_closed (getHalf conn d) \<or> p_end (last (p # post)))"
    using r c0 c1 by simp
  then show ?thesis by blast
qed

lemma skipFlush_calls:
  assumes s: "skipFlush a conn d = Some (a1, conn1)"
  shows "\<exists>new. calls conn1 = calls conn @ new"
proof (cases "h_queue (getHalf conn d)")
  case Nil
  then have "closeHalfConnection a conn d = (a1, conn1)" using s by (simp add: skipFlush_def)
  from closeHalfConnection_calls [OF this] show ?thesis by blast
next
  case (Cons p ps)
  from skipFlush_drain [OF s Cons] show ?thesis by blast
qed

lemma FlushAll_half_drain:
  "FlushAll_half a conn d = Some (a1, conn1) \<Longrightarrow>
     \<exists>new. calls conn1 = calls conn @ new \<and>
       (\<not> h_closed (getHalf conn d) \<and>
        (\<forall>p\<in>set (butlast (h_queue (getHalf conn d))). \<not> p_end p) \<longrightarrow>
        (\<forall>p\<in>set (h_queue (getHalf conn d)). Page p \<in> set (delivered new)))"
proof (induction a conn d rule: FlushAll_half.induct)
  case (1 a conn d)
  show ?case
  proof (cases "h_closed (getHalf conn d)")
    case True
    then have "conn1 = conn" using "1.prems" by (simp add: FlushAll_half.simps)
    then have "calls conn1 = calls conn @ []" by simp
    then show ?thesis using True by blast
  next
    case False
    then obtain a2 conn2 where s: "skipFlush a conn d = Some (a2, conn2)"
      using "1.prems" by (auto simp: FlushAll_half.simps split: option.splits)
    then have r: "FlushAll_half a2 conn2 d = Some (a1, conn1)"
      using "1.prems" False by (simp add: FlushAll_half.simps)
    from "1.IH" [OF False s refl r]
    obtain new2 where ih: "calls conn1 = calls conn2 @ new2"
      "\<not> h_closed (getHalf conn2 d) \<and>
        (\<forall>p\<in>set (butlast (h_queue (getHalf conn2 d))). \<not> p_end p) \<longrightarrow>
        (\<forall>p\<in>set (h_queue (getHalf conn2 d)). Page p \<in> set (delivered new2))"
      by blast
    show ?thesis
    proof (cases "h_queue (getHalf conn d)")
      case Nil
      from skipFlush_calls [OF s] obtain new1 where "calls conn2 = calls conn @ new1" by blast
      then have "calls conn1 = calls conn @ (new1 @ new2)" using ih(1) by simp
      then show ?thesis using Nil by auto
    next
      case (Cons p ps)
      from skipFlush_drain [OF s Cons]
      obtain new1 post where d:
        "calls conn2 = calls conn @ new1"
        "Page p \<in> set (delivered new1)" "\<forall>q\<in>set post. Page q \<in> set (delivered new1)"
        "ps = post @ h_queue (getHalf conn2 d)"
        "h_closed (getHalf conn2 d) \<longrightarrow> h_closed (getHalf conn d) \<or> p_end (last (p # post))"
        by blast
      have c: "calls conn1 = calls conn @ (new1 @ new2)" using ih(1) d(1) by simp
      have "\<forall>x\<in>set (h_queue (getHalf conn d)). Page x \<in> set (delivered (new1 @ new2))"
        if ne: "\<forall>x\<in>set (butlast (h_queue (getHalf conn d))). \<not> p_end x"
      proof (cases "h_closed (getHalf conn2 d)")
        case True
        then have pe: "p_end (last (p # post))" using d(5) False by simp
        have "h_queue (getHalf conn2 d) = []"
        proof (rule ccontr)
          assume n: "h_queue (getHalf conn2 d) \<noteq> []"
          have "butlast (p # ps) = (p # post) @ butlast (h_queue (getHalf conn2 d))"
            using d(4) n by (simp add: butlast_append)
          then have "last (p # post) \<in> set (butlast (h_queue (getHalf conn d)))"
            using Cons by (metis last_in_set list.distinct(1) Un_iff set_append)
          then show False using ne pe by blast
        qed
        then show ?thesis using Cons d(2,3,4) by (auto simp: delivered_append)
      next
        case op2: False
        have "set (butlast (h_queue (getHalf conn2 d))) \<subseteq> set (butlast (h_queue (getHalf conn d)))"
        proof (cases "h_queue (getHalf conn2 d) = []")
          case True
          then show ?thesis by simp
        next
          case n: False
          have "butlast (p # ps) = (p # post) @ butlast (h_queue (getHalf conn2 d))"
            using d(4) n by (simp add: butlast_append)
          then show ?thesis using Cons by auto
        qed
        then have "\<forall>x\<in>set (h_queue (getHalf conn2 d)). Page x \<in> set (delivered new2)"
          using ih(2) op2 ne by blast
        then show ?thesis using Cons d(2,3,4) by (auto simp: delivered_append)
      qed
      then show ?thesis using c by blast
    qed
  qed
qed


lemma FlushAll_conn_drain:
  assumes "FlushAll_conn a conn = Some (a2, conn2)"
  shows "(\<exists>k b c m.
            skipFlushed_until_closed k a conn TCPDirServerToClient b c \<and>
            skipFlushed_until_closed m b c TCPDirClientToServer a2 conn2) \<and>
         (\<exists>new. calls conn2 = calls conn @ new \<and>
            (\<forall>d. \<not> h_closed (getHalf conn d) \<and>
                 (\<forall>p\<in>set (butlast (h_queue (getHalf conn d))). \<not> p_end p) \<longrightarrow>
                 (\<forall>p\<in>set (h_queue (getHalf conn d)). Page p \<in> set (delivered new))))"
proof -
  obtain b c where o1: "FlushAll_one a conn TCPDirServerToClient = Some (b, c)"
    using assms by (auto simp: FlushAll_conn_def split: option.splits)
  then have o2: "FlushAll_one b c TCPDirClientToServer = Some (a2, conn2)"
    using assms by (simp add: FlushAll_conn_def)
  note h1 = FlushAll_one_half [OF o1]
  note h2 = FlushAll_one_half [OF o2]
  from FlushAll_half_mechanism [OF h1] obtain k where
    k: "skipFlushed_until_closed k a conn TCPDirServerToClient b c" by blast
  from FlushAll_half_mechanism [OF h2] obtain m where
    m: "skipFlushed_until_closed m b c TCPDirClientToServer a2 conn2" by blast
  from FlushAll_half_drain [OF h1] obtain new1 where
    n1: "calls c = calls conn @ new1"
      "\<not> h_closed (s2c conn) \<and> (\<forall>p\<in>set (butlast (h_queue (s2c conn))). \<not> p_end p) \<longrightarrow>
        (\<forall>p\<in>set (h_queue (s2c conn)). Page p \<in> set (delivered new1))"
    by (auto simp: getHalf_def)
  from FlushAll_half_drain [OF h2] obtain new2 where
    n2: "calls conn2 = calls c @ new2"
      "\<not> h_closed (c2s c) \<and> (\<forall>p\<in>set (butlast (h_queue (c2s c))). \<not> p_end p) \<longrightarrow>
        (\<forall>p\<in>set (h_queue (c2s c)). Page p \<in> set (delivered new2))"
    by (auto simp: getHalf_def)
  have same: "c2s c = c2s conn"
    using FlushAll_half_closed [OF h1] by (simp add: getHalf_def)
  have c: "calls conn2 = calls conn @ (new1 @ new2)" using n1(1) n2(1) by simp
  have dr: "\<forall>p\<in>set (h_queue (getHalf conn d)). Page p \<in> set (delivered (new1 @ new2))"
    if "\<not> h_closed (getHalf conn d) \<and>
        (\<forall>p\<in>set (butlast (h_queue (getHalf conn d))). \<not> p_end p)" for d
    using that n1(2) n2(2) same
    by (cases d) (auto simp: getHalf_def delivered_append)
  have A: "\<exists>k b c m.
            skipFlushed_until_closed k a conn TCPDirServerToClient b c \<and>
            skipFlushed_until_closed m b c TCPDirClientToServer a2 conn2"
    using k m by blast
  have B: "\<exists>new. calls conn2 = calls conn @ new \<and>
            (\<forall>d. \<not> h_closed (getHalf conn d) \<and>
                 (\<forall>p\<in>set (butlast (h_queue (getHalf conn d))). \<not> p_end p) \<longrightarrow>
                 (\<forall>p\<in>set (h_queue (getHalf conn d)). Page p \<in> set (delivered new)))"
    using c dr by blast
  show ?thesis using A B by (rule conjI)
qed

lemma FlushAll_conns_drain:
  "FlushAll_conns a conns = Some (a1, conns1) \<Longrightarrow>
     \<exists>as. length as = Suc (length conns) \<and> as ! 0 = a \<and> as ! length conns = a1 \<and>
       length conns1 = length conns \<and>
       (\<forall>i<length conns.
          (\<exists>k b c m.
             skipFlushed_until_closed k (as ! i) (conns ! i) TCPDirServerToClient b c \<and>
             skipFlushed_until_closed m b c TCPDirClientToServer (as ! Suc i) (conns1 ! i)) \<and>
          (\<exists>new. calls (conns1 ! i) = calls (conns ! i) @ new \<and>
             (\<forall>d. \<not> h_closed (getHalf (conns ! i) d) \<and>
                  (\<forall>p\<in>set (butlast (h_queue (getHalf (conns ! i) d))). \<not> p_end p) \<longrightarrow>
                  (\<forall>p\<in>set (h_queue (getHalf (conns ! i) d)). Page p \<in> set (delivered new)))))"
proof (induction conns arbitrary: a conns1)
  case Nil
  then have "a1 = a \<and> conns1 = []" by simp
  then have "length [a] = Suc (length ([] :: connection list)) \<and> [a] ! 0 = a \<and>
      [a] ! length ([] :: connection list) = a1 \<and> length conns1 = length ([] :: connection list)"
    by simp
  then show ?case by (intro exI [of _ "[a]"]) simp
next
  case (Cons c cs)
  obtain a' c1 where f: "FlushAll_conn a c = Some (a', c1)"
    using Cons.prems by (auto split: option.splits)
  obtain cs1 where r: "FlushAll_conns a' cs = Some (a1, cs1)" and e: "conns1 = c1 # cs1"
    using Cons.prems f by (auto split: option.splits)
  from Cons.IH [OF r] obtain as' where ih:
    "length as' = Suc (length cs)" "as' ! 0 = a'" "as' ! length cs = a1"
    "length cs1 = length cs"
    "\<forall>i<length cs.
          (\<exists>k b c m.
             skipFlushed_until_closed k (as' ! i) (cs ! i) TCPDirServerToClient b c \<and>
             skipFlushed_until_closed m b c TCPDirClientToServer (as' ! Suc i) (cs1 ! i)) \<and>
          (\<exists>new. calls (cs1 ! i) = calls (cs ! i) @ new \<and>
             (\<forall>d. \<not> h_closed (getHalf (cs ! i) d) \<and>
                  (\<forall>p\<in>set (butlast (h_queue (getHalf (cs ! i) d))). \<not> p_end p) \<longrightarrow>
                  (\<forall>p\<in>set (h_queue (getHalf (cs ! i) d)). Page p \<in> set (delivered new))))"
    by blast
  note d = FlushAll_conn_drain [OF f]
  have step: "(\<exists>k b c' m.
             skipFlushed_until_closed k ((a # as') ! i) ((c # cs) ! i) TCPDirServerToClient b c' \<and>
             skipFlushed_until_closed m b c' TCPDirClientToServer ((a # as') ! Suc i) (conns1 ! i)) \<and>
          (\<exists>new. calls (conns1 ! i) = calls ((c # cs) ! i) @ new \<and>
             (\<forall>d. \<not> h_closed (getHalf ((c # cs) ! i) d) \<and>
                  (\<forall>p\<in>set (butlast (h_queue (getHalf ((c # cs) ! i) d))). \<not> p_end p) \<longrightarrow>
                  (\<forall>p\<in>set (h_queue (getHalf ((c # cs) ! i) d)). Page p \<in> set (delivered new))))"
    if i: "i < length (c # cs)" for i
  proof (cases i)
    case 0
    then show ?thesis using d ih(2) e by simp
  next
    case (Suc j)
    then have "j < length cs" using i by simp
    then show ?thesis using ih(5) Suc e by simp
  qed
  have "length (a # as') = Suc (length (c # cs)) \<and> (a # as') ! 0 = a \<and>
       (a # as') ! length (c # cs) = a1 \<and> length conns1 = length (c # cs)"
    using ih e by simp
  then show ?case using step by (intro exI [of _ "a # as'"]) blast
qed

text \<open>
  C6: \<open>FlushAll\<close> goes through the connections it is given (those of the pool at the
  time of the call) and skip-flushes each half, \<open>s2c\<close> first, until the half is closed:
  the connection it leaves is what a number of \<open>skipFlush\<close> calls on \<open>s2c\<close> and then on
  \<open>c2s\<close> leave, each number the least after which the half is closed, the assembler
  being handed on from one connection to the next. When it returns, the count is the
  number of connections and both halves of each are closed. The flush drains the queues:
  every page queued on a half that was open is among what the stream has been handed in
  the calls made, provided no page before the last of the queue carries the end flag
  (a delivery that ends with such a page closes the half, and the loop stops there).
  \<open>FlushAll\<close> does return whenever the streams keep no bytes, the one place where the
  flush could panic being the conversion of kept bytes in \<open>cleanSG\<close>; the loop itself
  always ends, as the termination proof of \<open>FlushAll_half\<close> shows.
\<close>

theorem FlushAll_closes_all:
  "(\<forall>n a1 conns1. FlushAll a conns = Some (n, a1, conns1) \<longrightarrow>
      n = int (length conns) \<and> length conns1 = length conns \<and>
      (\<forall>i<length conns. h_closed (s2c (conns1 ! i)) \<and> h_closed (c2s (conns1 ! i)) \<and>
         conn_key (conns1 ! i) = conn_key (conns ! i)) \<and>
      (\<exists>as. length as = Suc (length conns) \<and> as ! 0 = a \<and> as ! length conns = a1 \<and>
         (\<forall>i<length conns.
            (\<exists>k b c m.
               skipFlushed_until_closed k (as ! i) (conns ! i) TCPDirServerToClient b c \<and>
               skipFlushed_until_closed m b c TCPDirClientToServer (as ! Suc i) (conns1 ! i)) \<and>
            (\<exists>new. calls (conns1 ! i) = calls (conns ! i) @ new \<and>
               (\<forall>d. \<not> h_closed (getHalf (conns ! i) d) \<and>
                    (\<forall>p\<in>set (butlast (h_queue (getHalf (conns ! i) d))). \<not> p_end p) \<longrightarrow>
                    (\<forall>p\<in>set (h_queue (getHalf (conns ! i) d)).
                       Page p \<in> set (delivered new))))))) \<and>
   ((\<forall>c\<in>set conns. \<forall>cs sg. KeepFrom (stream c) cs sg < 0) \<longrightarrow>
      (\<exists>n a1 conns1. FlushAll a conns = Some (n, a1, conns1)))"
proof -
  have 1: "n = int (length conns) \<and> length conns1 = length conns \<and>
      (\<forall>i<length conns. h_closed (s2c (conns1 ! i)) \<and> h_closed (c2s (conns1 ! i)) \<and>
         conn_key (conns1 ! i) = conn_key (conns ! i)) \<and>
      (\<exists>as. length as = Suc (length conns) \<and> as ! 0 = a \<and> as ! length conns = a1 \<and>
         (\<forall>i<length conns.
            (\<exists>k b c m.
               skipFlushed_until_closed k (as ! i) (conns ! i) TCPDirServerToClient b c \<and>
               skipFlushed_until_closed m b c TCPDirClientToServer (as ! Suc i) (conns1 ! i)) \<and>
            (\<exists>new. calls (conns1 ! i) = calls (conns ! i) @ new \<and>
               (\<forall>d. \<not> h_closed (getHalf (conns ! i) d) \<and>
                    (\<forall>p\<in>set (butlast (h_queue (getHalf (conns ! i) d))). \<not> p_end p) \<longrightarrow>
                    (\<forall>p\<in>set (h_queue (getHalf (conns ! i) d)).
                       Page p \<in> set (delivered new))))))"
    if f: "FlushAll a conns = Some (n, a1, conns1)" for n a1 conns1
  proof -
    have n: "n = int (length conns)" using f by (auto simp: FlushAll_def)
    have c: "FlushAll_conns a conns = Some (a1, conns1)"
      using f by (auto simp: FlushAll_def)
    note l = FlushAll_conns_closed [OF c]
    have A: "length conns1 = length conns \<and>
      (\<forall>i<length conns. h_closed (s2c (conns1 ! i)) \<and> h_closed (c2s (conns1 ! i)) \<and>
         conn_key (conns1 ! i) = conn_key (conns ! i))"
      using l by (simp add: list_all2_conv_all_nth)
    from FlushAll_conns_drain [OF c] obtain as where as:
      "length as = Suc (length conns)" "as ! 0 = a" "as ! length conns = a1"
      "\<forall>i<length conns.
          (\<exists>k b c m.
             skipFlushed_until_closed k (as ! i) (conns ! i) TCPDirServerToClient b c \<and>
             skipFlushed_until_closed m b c TCPDirClientToServer (as ! Suc i) (conns1 ! i)) \<and>
          (\<exists>new. calls (conns1 ! i) = calls (conns ! i) @ new \<and>
             (\<forall>d. \<not> h_closed (getHalf (conns ! i) d) \<and>
                  (\<forall>p\<in>set (butlast (h_queue (getHalf (conns ! i) d))). \<not> p_end p) \<longrightarrow>
                  (\<forall>p\<in>set (h_queue (getHalf (conns ! i) d)). Page p \<in> set (delivered new))))"
      by blast
    have B: "\<exists>as. length as = Suc (length conns) \<and> as ! 0 = a \<and> as ! length conns = a1 \<and>
         (\<forall>i<length conns.
            (\<exists>k b c m.
               skipFlushed_until_closed k (as ! i) (conns ! i) TCPDirServerToClient b c \<and>
               skipFlushed_until_closed m b c TCPDirClientToServer (as ! Suc i) (conns1 ! i)) \<and>
            (\<exists>new. calls (conns1 ! i) = calls (conns ! i) @ new \<and>
               (\<forall>d. \<not> h_closed (getHalf (conns ! i) d) \<and>
                    (\<forall>p\<in>set (butlast (h_queue (getHalf (conns ! i) d))). \<not> p_end p) \<longrightarrow>
                    (\<forall>p\<in>set (h_queue (getHalf (conns ! i) d)).
                       Page p \<in> set (delivered new)))))"
      by (intro exI [of _ as] conjI as)
    show ?thesis using n A B by (intro conjI) simp_all
  qed
  have 2: "\<exists>n a1 conns1. FlushAll a conns = Some (n, a1, conns1)"
    if h: "\<forall>c\<in>set conns. \<forall>cs sg. KeepFrom (stream c) cs sg < 0"
  proof -
    obtain r where "FlushAll_conns a conns = Some r"
      using FlushAll_conns_total [OF h, of a] by auto
    then show ?thesis by (cases r) (simp add: FlushAll_def)
  qed
  show ?thesis
  proof (rule conjI)
    show "\<forall>n a1 conns1. FlushAll a conns = Some (n, a1, conns1) \<longrightarrow>
      n = int (length conns) \<and> length conns1 = length conns \<and>
      (\<forall>i<length conns. h_closed (s2c (conns1 ! i)) \<and> h_closed (c2s (conns1 ! i)) \<and>
         conn_key (conns1 ! i) = conn_key (conns ! i)) \<and>
      (\<exists>as. length as = Suc (length conns) \<and> as ! 0 = a \<and> as ! length conns = a1 \<and>
         (\<forall>i<length conns.
            (\<exists>k b c m.
               skipFlushed_until_closed k (as ! i) (conns ! i) TCPDirServerToClient b c \<and>
               skipFlushed_until_closed m b c TCPDirClientToServer (as ! Suc i) (conns1 ! i)) \<and>
            (\<exists>new. calls (conns1 ! i) = calls (conns ! i) @ new \<and>
               (\<forall>d. \<not> h_closed (getHalf (conns ! i) d) \<and>
                    (\<forall>p\<in>set (butlast (h_queue (getHalf (conns ! i) d))). \<not> p_end p) \<longrightarrow>
                    (\<forall>p\<in>set (h_queue (getHalf (conns ! i) d)).
                       Page p \<in> set (delivered new))))))"
      by (intro allI impI) (rule 1)
    show "(\<forall>c\<in>set conns. \<forall>cs sg. KeepFrom (stream c) cs sg < 0) \<longrightarrow>
      (\<exists>n a1 conns1. FlushAll a conns = Some (n, a1, conns1))"
      by (intro impI) (rule 2)
  qed
qed

theorem FlushAll_closes_all_witness:
  "(case assembleAll example_assembler example_conn
           [(TCPDirClientToServer, (seg 1000 [])\<lparr>SYN := True\<rparr>, 1),
            (TCPDirClientToServer, seg 1010 ''XY'', 2),
            (TCPDirClientToServer, seg 1020 ''PQ'', 3)] of
      None \<Rightarrow> False
    | Some (a, c) \<Rightarrow>
        map p_bytes (h_queue (c2s c)) = [''XY'', ''PQ''] \<and>
        \<not> h_closed (c2s c) \<and> \<not> h_closed (s2c c) \<and>
        (case FlushAll a [c] of
           Some (n, a1, [c1]) \<Rightarrow>
             n = 1 \<and> h_closed (s2c c1) \<and> h_closed (c2s c1) \<and>
             deliveries (calls c1) =
               [(TCPDirClientToServer, []), (TCPDirClientToServer, ''XY''),
                (TCPDirClientToServer, ''PQ'')] \<and>
             map getBytes (delivered (calls c1)) = [[], ''XY'', ''PQ'']
         | _ \<Rightarrow> False))"
proof -
  have e: "(case assembleAll example_assembler example_conn
           [(TCPDirClientToServer, (seg 1000 [])\<lparr>SYN := True\<rparr>, 1),
            (TCPDirClientToServer, seg 1010 ''XY'', 2),
            (TCPDirClientToServer, seg 1020 ''PQ'', 3)] of
      None \<Rightarrow> False
    | Some (a, c) \<Rightarrow>
        map p_bytes (h_queue (c2s c)) = [''XY'', ''PQ''] \<and>
        \<not> h_closed (c2s c) \<and> \<not> h_closed (s2c c) \<and>
        (case FlushAll a [c] of
           Some (n, a1, [c1]) \<Rightarrow>
             n = 1 \<and> h_closed (s2c c1) \<and> h_closed (c2s c1) \<and>
             deliveries (calls c1) =
               [(TCPDirClientToServer, []), (TCPDirClientToServer, ''XY''),
                (TCPDirClientToServer, ''PQ'')] \<and>
             map getBytes (delivered (calls c1)) = [[], ''XY'', ''PQ'']
         | _ \<Rightarrow> False))"
    by code_simp
  show ?thesis
    using FlushAll_closes_all
      [of "fst (the (assembleAll example_assembler example_conn
           [(TCPDirClientToServer, (seg 1000 [])\<lparr>SYN := True\<rparr>, 1),
            (TCPDirClientToServer, seg 1010 ''XY'', 2),
            (TCPDirClientToServer, seg 1020 ''PQ'', 3)]))"
          "[snd (the (assembleAll example_assembler example_conn
           [(TCPDirClientToServer, (seg 1000 [])\<lparr>SYN := True\<rparr>, 1),
            (TCPDirClientToServer, seg 1010 ''XY'', 2),
            (TCPDirClientToServer, seg 1020 ''PQ'', 3)]))]"] e
    by simp
qed








































end
